theory Spec2Isabelle
  imports Complex_Main
begin

section \<open>JavaScript numbers and the values the component stores\<close>

text \<open>
  A coordinate is a JavaScript number: a finite value, or one of the three non-finite
  values. Finite values are modelled as reals (rounding is not modelled).
\<close>

datatype jsnum = Fin real | NaN | PosInf | NegInf

text \<open>Truthiness of a number, as \<open>||\<close> tests it: \<open>0\<close> and \<open>NaN\<close> are falsy.\<close>

fun truthy :: "jsnum \<Rightarrow> bool" where
  "truthy (Fin r) = (r \<noteq> 0)"
| "truthy NaN = False"
| "truthy PosInf = True"
| "truthy NegInf = True"

fun isFinite :: "jsnum \<Rightarrow> bool" where
  "isFinite (Fin r) = True"
| "isFinite NaN = False"
| "isFinite PosInf = False"
| "isFinite NegInf = False"

text \<open>
  An entry of \<open>nodePositionsRef.current\<close>: \<open>{x, y, fx, fy}\<close>. \<open>fx\<close> and \<open>fy\<close> are a number
  or \<open>null\<close> (\<open>None\<close>).
\<close>

record cache_entry =
  c_x :: jsnum
  c_y :: jsnum
  c_fx :: "jsnum option"
  c_fy :: "jsnum option"

type_synonym cache = "string \<rightharpoonup> cache_entry"

text \<open>An element of the \<open>nodes\<close> prop.\<close>

record node_in =
  n_id :: string
  n_name :: string

text \<open>An element of \<open>nodesData\<close> as \<open>nodes.map\<close> builds it (lines 19-29).\<close>

record seeded_node = node_in +
  n_x :: jsnum
  n_y :: jsnum
  n_fx :: "jsnum option"
  n_fy :: "jsnum option"

datatype node_type = MyStock | Related | Other

text \<open>An element of \<open>nodesData\<close> after the styling pass (lines 33-57) has added its fields.\<close>

record sim_node = seeded_node +
  n_type :: node_type
  n_radius :: real
  n_color :: string

text \<open>
  A link endpoint is a node id, as the snapshot supplies it, or a node object, of which
  only the id is read.
\<close>

datatype endpoint = EId string | ENode string

record link =
  l_source :: endpoint
  l_target :: endpoint
  l_value :: real

text \<open>The id an endpoint stands for.\<close>

fun endpoint_id :: "endpoint \<Rightarrow> string" where
  "endpoint_id (EId s) = s"
| "endpoint_id (ENode s) = s"

section \<open>Seeding from the position cache (lines 19-29)\<close>

text \<open>
  \<open>Math.random()\<close> is a stream \<open>rnd\<close> of draws and the number \<open>k\<close> of draws made so far.
  \<open>extent / 2 + (Math.random() - 0.5) * 100\<close>:
\<close>

definition jitter :: "real \<Rightarrow> real \<Rightarrow> jsnum" where
  "jitter extent r = Fin (extent / 2 + (r - 1 / 2) * 100)"

text \<open>
  \<open>cached?.x || extent / 2 + (Math.random() - 0.5) * 100\<close>. The argument is \<open>cached?.x\<close>,
  \<open>None\<close> when there is no entry. The right operand is evaluated, and a draw made, only
  when the left one is falsy.
\<close>

definition seed_coord :: "jsnum option \<Rightarrow> real \<Rightarrow> (nat \<Rightarrow> real) \<Rightarrow> nat \<Rightarrow> jsnum \<times> nat" where
  "seed_coord cached extent rnd k =
     (case cached of
        Some v \<Rightarrow> if truthy v then (v, k) else (jitter extent (rnd k), Suc k)
      | None \<Rightarrow> (jitter extent (rnd k), Suc k))"

text \<open>\<open>cached?.fx || null\<close>\<close>

definition seed_pin :: "jsnum option \<Rightarrow> jsnum option" where
  "seed_pin cached =
     (case cached of
        Some v \<Rightarrow> if truthy v then Some v else None
      | None \<Rightarrow> None)"

definition seed_node ::
  "cache \<Rightarrow> real \<Rightarrow> real \<Rightarrow> (nat \<Rightarrow> real) \<Rightarrow> nat \<Rightarrow> node_in \<Rightarrow> seeded_node \<times> nat" where
  "seed_node cache width height rnd k d =
     (let cached = cache (n_id d);
          (x, k1) = seed_coord (map_option c_x cached) width rnd k;
          (y, k2) = seed_coord (map_option c_y cached) height rnd k1
      in (\<lparr>n_id = n_id d, n_name = n_name d,
           n_x = x, n_y = y,
           n_fx = seed_pin (Option.bind cached c_fx),
           n_fy = seed_pin (Option.bind cached c_fy)\<rparr>, k2))"

text \<open>\<open>nodes.map(d => ...)\<close>, left to right.\<close>

fun seed_nodes ::
  "cache \<Rightarrow> real \<Rightarrow> real \<Rightarrow> (nat \<Rightarrow> real) \<Rightarrow> nat \<Rightarrow> node_in list \<Rightarrow> seeded_node list \<times> nat" where
  "seed_nodes cache width height rnd k [] = ([], k)"
| "seed_nodes cache width height rnd k (d # ds) =
     (let (n, k1) = seed_node cache width height rnd k d;
          (ns, k2) = seed_nodes cache width height rnd k1 ds
      in (n # ns, k2))"

section \<open>Node types (lines 33-57)\<close>

text \<open>\<open>link.source === node.id\<close>: an object is never strictly equal to a string.\<close>

fun strict_eq :: "endpoint \<Rightarrow> string \<Rightarrow> bool" where
  "strict_eq (EId s) i = (s = i)"
| "strict_eq (ENode s) i = False"

text \<open>\<open>myStockCodes.includes(link.target)\<close>: the array holds strings only.\<close>

fun includes_endpoint :: "string list \<Rightarrow> endpoint \<Rightarrow> bool" where
  "includes_endpoint codes (EId s) = (s \<in> set codes)"
| "includes_endpoint codes (ENode s) = False"

text \<open>\<open>link.source?.id\<close>: \<open>undefined\<close> (\<open>None\<close>) on a string.\<close>

fun opt_id :: "endpoint \<Rightarrow> string option" where
  "opt_id (EId s) = None"
| "opt_id (ENode s) = Some s"

text \<open>\<open>myStockCodes.includes(link.target?.id)\<close>\<close>

fun includes_opt :: "string list \<Rightarrow> string option \<Rightarrow> bool" where
  "includes_opt codes None = False"
| "includes_opt codes (Some s) = (s \<in> set codes)"

definition isRelated :: "string list \<Rightarrow> link list \<Rightarrow> string \<Rightarrow> bool" where
  "isRelated myStockCodes linksData i =
     list_ex (\<lambda>link.
        (strict_eq (l_source link) i \<and> includes_endpoint myStockCodes (l_target link)) \<or>
        (strict_eq (l_target link) i \<and> includes_endpoint myStockCodes (l_source link)) \<or>
        (opt_id (l_source link) = Some i \<and> includes_opt myStockCodes (opt_id (l_target link))) \<or>
        (opt_id (l_target link) = Some i \<and> includes_opt myStockCodes (opt_id (l_source link))))
      linksData"

definition style_node :: "string list \<Rightarrow> link list \<Rightarrow> seeded_node \<Rightarrow> sim_node" where
  "style_node myStockCodes linksData node =
     (let (t, r, c) =
        (if n_id node \<in> set myStockCodes then (MyStock, 30, ''#007AFF'')
         else if isRelated myStockCodes linksData (n_id node) then (Related, 20, ''#34C759'')
         else (Other, 10, ''#D1D1D6''))
      in \<lparr>n_id = n_id node, n_name = n_name node,
          n_x = n_x node, n_y = n_y node, n_fx = n_fx node, n_fy = n_fy node,
          n_type = t, n_radius = r, n_color = c\<rparr>)"

text \<open>\<open>links.map(d => ({ ...d }))\<close>: a copy of every link, in order.\<close>

definition clone_links :: "link list \<Rightarrow> link list" where
  "clone_links links = map (\<lambda>d. \<lparr>l_source = l_source d, l_target = l_target d, l_value = l_value d\<rparr>) links"

text \<open>
  Lines 19-57: \<open>nodesData\<close> after the styling pass, \<open>linksData\<close>, and the number of
  random draws made.
\<close>

definition prepare ::
  "cache \<Rightarrow> real \<Rightarrow> real \<Rightarrow> (nat \<Rightarrow> real) \<Rightarrow> nat \<Rightarrow> node_in list \<Rightarrow> link list \<Rightarrow> string list
     \<Rightarrow> sim_node list \<times> link list \<times> nat" where
  "prepare cache width height rnd k nodes links myStockCodes =
     (let (seeded, k') = seed_nodes cache width height rnd k nodes;
          linksData = clone_links links;
          nodesData = map (style_node myStockCodes linksData) seeded
      in (nodesData, linksData, k'))"

section \<open>The simulation (lines 67-76)\<close>

text \<open>
  The force library (\<open>window.d3\<close>) is not among the sources. What this section and the
  section on its step say of it beyond the calls the component makes is stated where it
  is used.

  When the link force is registered (line 69) it replaces every endpoint of a link that
  is not an object by the node object with that id, the last one where an id occurs
  twice, and throws when there is none; an endpoint that is an object is left as it is.
  A resolved endpoint is the index of the node in \<open>nodesData\<close>, or the object the caller
  supplied, of which the model holds the id only.
\<close>

datatype error = NodeNotFound string

datatype link_end = AtNode nat | Object string

record sim_link =
  sl_source :: link_end
  sl_target :: link_end
  sl_value :: real

text \<open>
  What the component holds of a simulation: the two arrays it was built from, which the
  force library and the handlers mutate, the velocity the library keeps for each node,
  the centre given to the centering force (line 71), the three alpha parameters,
  whether its timer is running, the subjects of the drag gestures in progress on its
  circles (the \<open>d3.drag()\<close> behaviour is created with the simulation, line 163), and
  the number of warnings its steps have given.
\<close>

record simulation =
  s_nodes :: "sim_node list"
  s_links :: "sim_link list"
  s_velocity :: "(jsnum \<times> jsnum) list"
  s_center :: "real \<times> real"
  s_alpha :: real
  s_alphaTarget :: real
  s_alphaDecay :: real
  s_running :: bool
  s_gestures :: "nat list"
  s_warnings :: nat

text \<open>
  The force parameters of lines 69-72. \<open>.distance(100)\<close> and \<open>.strength(0.3)\<close> set the
  same number for every link; \<open>.radius(d => d.radius + 10)\<close> is per node.
\<close>

definition link_distance :: "link \<Rightarrow> real" where
  "link_distance l = 100"

definition link_strength :: "link \<Rightarrow> real" where
  "link_strength l = 3 / 10"

definition charge_strength :: "sim_node \<Rightarrow> real" where
  "charge_strength n = - 200"

definition center_strength :: real where
  "center_strength = 5 / 100"

definition collide_radius :: "sim_node \<Rightarrow> real" where
  "collide_radius d = n_radius d + 10"

text \<open>Line 85, \<open>Math.sqrt(d.value) * 3\<close>: the square root of a negative number is \<open>NaN\<close>.\<close>

definition stroke_width :: "link \<Rightarrow> jsnum" where
  "stroke_width d = (if l_value d < 0 then NaN else Fin (sqrt (l_value d) * 3))"

text \<open>
  The index of the last node with a given id, counting from \<open>i\<close>: the library's map
  from ids to nodes, in which a later node replaces an earlier one with the same id.
\<close>

fun index_by_id :: "nat \<Rightarrow> sim_node list \<Rightarrow> string \<Rightarrow> nat option" where
  "index_by_id i [] nodeId = None"
| "index_by_id i (n # ns) nodeId =
     (case index_by_id (Suc i) ns nodeId of
        Some j \<Rightarrow> Some j
      | None \<Rightarrow> if n_id n = nodeId then Some i else None)"

definition find_node :: "sim_node list \<Rightarrow> string \<Rightarrow> error + nat" where
  "find_node nodes nodeId =
     (case index_by_id 0 nodes nodeId of
        None \<Rightarrow> Inl (NodeNotFound nodeId)
      | Some i \<Rightarrow> Inr i)"

fun resolve_end :: "sim_node list \<Rightarrow> endpoint \<Rightarrow> error + link_end" where
  "resolve_end nodes (EId s) =
     (case find_node nodes s of Inl e \<Rightarrow> Inl e | Inr i \<Rightarrow> Inr (AtNode i))"
| "resolve_end nodes (ENode s) = Inr (Object s)"

text \<open>
  The initialisation of the link force: the links in order, the source of a link before
  its target. The first endpoint without a node ends it with the error.
\<close>

fun initialize_links :: "sim_node list \<Rightarrow> link list \<Rightarrow> error + sim_link list" where
  "initialize_links nodes [] = Inr []"
| "initialize_links nodes (l # ls) =
     (case resolve_end nodes (l_source l) of
        Inl e \<Rightarrow> Inl e
      | Inr s \<Rightarrow>
          (case resolve_end nodes (l_target l) of
             Inl e \<Rightarrow> Inl e
           | Inr t \<Rightarrow>
               (case initialize_links nodes ls of
                  Inl e \<Rightarrow> Inl e
                | Inr rs \<Rightarrow> Inr (\<lparr>sl_source = s, sl_target = t, sl_value = l_value l\<rparr> # rs))))"

text \<open>
  Modelled from the spec: the creation of a simulation by the force library, which is
  not among the sources. A pinned node's position equals its fixed coordinates
  (section 3), from the creation of the simulation on.
\<close>

definition pin_position :: "sim_node \<Rightarrow> sim_node" where
  "pin_position n =
     n\<lparr>n_x := (case n_fx n of None \<Rightarrow> n_x n | Some f \<Rightarrow> f),
       n_y := (case n_fy n of None \<Rightarrow> n_y n | Some f \<Rightarrow> f)\<rparr>"

text \<open>
  Lines 68-74 when the link force has taken the links:
  \<open>d3.forceSimulation(nodesData) ... .alpha(0.3).alphaDecay(0.02)\<close>. A new simulation
  starts its timer; the velocities start at 0; the alpha target is 0 until a handler
  sets it. The index the library adds to the node and link objects is not modelled.
\<close>

definition forceSimulation ::
  "sim_node list \<Rightarrow> sim_link list \<Rightarrow> real \<Rightarrow> real \<Rightarrow> simulation" where
  "forceSimulation nodesData linksData width height =
     \<lparr>s_nodes = map pin_position nodesData, s_links = linksData,
      s_velocity = map (\<lambda>n. (Fin 0, Fin 0)) nodesData,
      s_center = (width / 2, height / 2),
      s_alpha = 3 / 10, s_alphaTarget = 0, s_alphaDecay = 2 / 100,
      s_running = True, s_gestures = [], s_warnings = 0\<rparr>"

text \<open>
  Line 68 alone, when line 69 throws: a simulation that has its nodes and a running
  timer and nothing else: no force, no callback, no handler, and the library's own
  alpha and decay. It makes its steps, which move no node, until the library's count of
  steps for them is reached.
\<close>

record orphan =
  o_nodes :: "sim_node list"
  o_steps :: nat
  o_running :: bool

definition started_only :: "sim_node list \<Rightarrow> orphan" where
  "started_only nodesData = \<lparr>o_nodes = map pin_position nodesData, o_steps = 0, o_running = True\<rparr>"

definition stop :: "simulation \<Rightarrow> simulation" where
  "stop s = s\<lparr>s_running := False\<rparr>"

definition restart :: "simulation \<Rightarrow> simulation" where
  "restart s = s\<lparr>s_running := True\<rparr>"

definition modify_at :: "nat \<Rightarrow> ('a \<Rightarrow> 'a) \<Rightarrow> 'a list \<Rightarrow> 'a list" where
  "modify_at i f xs = (if i < length xs then xs[i := f (xs ! i)] else xs)"

definition fetch_at :: "'a list \<Rightarrow> nat \<Rightarrow> 'a option" where
  "fetch_at xs i = (if i < length xs then Some (xs ! i) else None)"

section \<open>The tick and end callbacks (lines 112-134)\<close>

text \<open>
  The attributes the tick callback assigns: \<open>x1, y1\<close> and \<open>x2, y2\<close> of every line, \<open>cx, cy\<close>
  of every circle, \<open>x, y\<close> of every label. The end of a line at a node of \<open>nodesData\<close> gets
  the position of that node. The end at an object the caller supplied gets that
  object's coordinates, which the model does not hold (\<open>None\<close>); \<open>None\<close> also stands for an
  index beyond \<open>nodesData\<close>, which no simulation has (lemma \<open>links_in_range_run\<close>).
\<close>

record frame =
  f_lines :: "((jsnum \<times> jsnum) option \<times> (jsnum \<times> jsnum) option) list"
  f_circles :: "(jsnum \<times> jsnum) list"
  f_labels :: "(jsnum \<times> jsnum) list"

fun end_attrs :: "sim_node list \<Rightarrow> link_end \<Rightarrow> (jsnum \<times> jsnum) option" where
  "end_attrs nodes (AtNode i) = map_option (\<lambda>n. (n_x n, n_y n)) (fetch_at nodes i)"
| "end_attrs nodes (Object s) = None"

definition line_attrs ::
  "sim_node list \<Rightarrow> sim_link \<Rightarrow> (jsnum \<times> jsnum) option \<times> (jsnum \<times> jsnum) option" where
  "line_attrs nodes d = (end_attrs nodes (sl_source d), end_attrs nodes (sl_target d))"

definition on_tick :: "simulation \<Rightarrow> frame" where
  "on_tick s =
     \<lparr>f_lines = map (line_attrs (s_nodes s)) (s_links s),
      f_circles = map (\<lambda>d. (n_x d, n_y d)) (s_nodes s),
      f_labels = map (\<lambda>d. (n_x d, n_y d)) (s_nodes s)\<rparr>"

text \<open>\<open>{ x: n.x, y: n.y, fx: n.fx, fy: n.fy }\<close>\<close>

definition entry_of :: "sim_node \<Rightarrow> cache_entry" where
  "entry_of n = \<lparr>c_x = n_x n, c_y = n_y n, c_fx = n_fx n, c_fy = n_fy n\<rparr>"

text \<open>The end callback: \<open>nodesData.forEach(n => { nodePositionsRef.current[n.id] = ... })\<close>\<close>

definition on_end :: "simulation \<Rightarrow> cache \<Rightarrow> cache" where
  "on_end s c = foldl (\<lambda>c n. c(n_id n \<mapsto> entry_of n)) c (s_nodes s)"

section \<open>The drag handlers (lines 137-167)\<close>

text \<open>
  Each handler takes the fields of the event that it reads: \<open>event.active\<close>, the index of
  \<open>event.subject\<close> in \<open>nodesData\<close>, \<open>event.x\<close> and \<open>event.y\<close>.
\<close>

definition dragstarted :: "nat \<Rightarrow> nat \<Rightarrow> simulation \<Rightarrow> simulation" where
  "dragstarted active subject simulation =
     (let s1 = (if active = 0 then restart (simulation\<lparr>s_alphaTarget := 1 / 10\<rparr>) else simulation)
      in s1\<lparr>s_nodes := modify_at subject (\<lambda>n. n\<lparr>n_fx := Some (n_x n), n_fy := Some (n_y n)\<rparr>) (s_nodes s1)\<rparr>)"

definition dragged :: "nat \<Rightarrow> jsnum \<Rightarrow> jsnum \<Rightarrow> simulation \<Rightarrow> simulation" where
  "dragged subject x y simulation =
     simulation\<lparr>s_nodes := modify_at subject (\<lambda>n. n\<lparr>n_fx := Some x, n_fy := Some y\<rparr>) (s_nodes simulation)\<rparr>"

definition dragended :: "nat \<Rightarrow> nat \<Rightarrow> simulation \<Rightarrow> cache \<Rightarrow> simulation \<times> cache" where
  "dragended active subject simulation c =
     (let s1 = (if active = 0 then simulation\<lparr>s_alphaTarget := 0\<rparr> else simulation)
      in (s1, case fetch_at (s_nodes s1) subject of
                None \<Rightarrow> c
              | Some n \<Rightarrow> c(n_id n \<mapsto> entry_of n)))"

section \<open>The step of the force library\<close>

text \<open>
  Modelled from the spec: the step of the force library, which is not among the
  sources. The forces are a parameter \<open>move\<close>, which gives for a node the position and
  the velocity they drive it to. The step (section 4.2) moves alpha towards the alpha
  target by the decay rate, so that alpha decays geometrically. On each axis a node
  with a fixed coordinate is excluded from the force-driven update: it is at the fixed
  coordinate, without velocity (section 3: a pinned node's position equals its fixed
  coordinates). When a computed position or velocity is not finite the step resets the
  node to the centre of the canvas and zeroes its velocity, and reports it as a
  warning, not as a failure (sections 4.2 and 7).
\<close>

type_synonym motion = "sim_node list \<Rightarrow> sim_node \<Rightarrow> (jsnum \<times> jsnum) \<times> (jsnum \<times> jsnum)"

definition computed_position :: "motion \<Rightarrow> sim_node list \<Rightarrow> sim_node \<Rightarrow> jsnum \<times> jsnum" where
  "computed_position move nodes n =
     (case n_fx n of None \<Rightarrow> fst (fst (move nodes n)) | Some f \<Rightarrow> f,
      case n_fy n of None \<Rightarrow> snd (fst (move nodes n)) | Some f \<Rightarrow> f)"

definition computed_velocity :: "motion \<Rightarrow> sim_node list \<Rightarrow> sim_node \<Rightarrow> jsnum \<times> jsnum" where
  "computed_velocity move nodes n =
     (case n_fx n of None \<Rightarrow> fst (snd (move nodes n)) | Some f \<Rightarrow> Fin 0,
      case n_fy n of None \<Rightarrow> snd (snd (move nodes n)) | Some f \<Rightarrow> Fin 0)"

definition finite_pair :: "jsnum \<times> jsnum \<Rightarrow> bool" where
  "finite_pair p = (isFinite (fst p) \<and> isFinite (snd p))"

definition sound_motion :: "motion \<Rightarrow> sim_node list \<Rightarrow> sim_node \<Rightarrow> bool" where
  "sound_motion move nodes n =
     (finite_pair (computed_position move nodes n) \<and> finite_pair (computed_velocity move nodes n))"

definition engine_node :: "motion \<Rightarrow> real \<times> real \<Rightarrow> sim_node list \<Rightarrow> sim_node \<Rightarrow> sim_node" where
  "engine_node move centre nodes n =
     (if sound_motion move nodes n
      then n\<lparr>n_x := fst (computed_position move nodes n),
             n_y := snd (computed_position move nodes n)\<rparr>
      else n\<lparr>n_x := Fin (fst centre), n_y := Fin (snd centre)\<rparr>)"

definition engine_velocity :: "motion \<Rightarrow> sim_node list \<Rightarrow> sim_node \<Rightarrow> jsnum \<times> jsnum" where
  "engine_velocity move nodes n =
     (if sound_motion move nodes n then computed_velocity move nodes n else (Fin 0, Fin 0))"

definition engine_tick :: "motion \<Rightarrow> simulation \<Rightarrow> simulation" where
  "engine_tick move s =
     s\<lparr>s_alpha := s_alpha s + (s_alphaTarget s - s_alpha s) * s_alphaDecay s,
       s_nodes := map (engine_node move (s_center s) (s_nodes s)) (s_nodes s),
       s_velocity := map (engine_velocity move (s_nodes s)) (s_nodes s),
       s_warnings := s_warnings s
          + length (filter (\<lambda>n. \<not> sound_motion move (s_nodes s) n) (s_nodes s))\<rparr>"

section \<open>The component\<close>

text \<open>
  The state that outlives a run of the effect: the simulations whose setup was
  completed (a simulation is known by its index), those that were only started,
  \<open>simulationRef.current\<close>, \<open>nodePositionsRef.current\<close>, the simulation whose circles and
  drag handlers are in the SVG, the attributes the last tick callback assigned, the
  number of random draws made, the cleanup function that the last run of the effect
  returned (the simulation it stops), and the error that run threw.
\<close>

record view =
  v_sims :: "simulation list"
  v_orphans :: "orphan list"
  simulationRef :: "nat option"
  nodePositionsRef :: cache
  v_svg :: "nat option"
  v_frame :: "frame option"
  v_draws :: nat
  v_cleanup :: "nat option"
  v_error :: "error option"

definition init :: view where
  "init = \<lparr>v_sims = [], v_orphans = [], simulationRef = None, nodePositionsRef = Map.empty,
           v_svg = None, v_frame = None, v_draws = 0, v_cleanup = None, v_error = None\<rparr>"

text \<open>
  What lies outside the component: the random draws, the forces, the alpha floor, and
  the number of steps a simulation makes on the library's own alpha and decay.
\<close>

record world =
  w_rnd :: "nat \<Rightarrow> real"
  w_move :: motion
  w_alphaMin :: real
  w_default_steps :: nat

text \<open>Lines 59-62: \<open>if (simulationRef.current) simulationRef.current.stop()\<close>\<close>

definition stop_previous :: "view \<Rightarrow> view" where
  "stop_previous v =
     (case simulationRef v of
        None \<Rightarrow> v
      | Some i \<Rightarrow> v\<lparr>v_sims := modify_at i stop (v_sims v)\<rparr>)"

text \<open>
  The body of the effect (lines 12-172). \<open>refs\<close> says that \<open>svgRef.current\<close> and
  \<open>containerRef.current\<close> are set; \<open>width\<close> and \<open>height\<close> are the container's client size.
  A run that returns at line 12 returns no cleanup function. Otherwise the arrays are
  built, the previous simulation is stopped and the SVG emptied; line 68 starts the new
  simulation, and line 69 registers the link force. When that throws, the run ends
  there: the simulation that was started is in no ref, nothing is drawn, no callback or
  handler is attached and no cleanup function is returned. When it does not, the setup
  is completed, \<open>simulationRef.current\<close> is the new simulation (line 76), its lines,
  circles and labels are in the SVG, and the cleanup function that stops it is
  returned.
\<close>

definition layout ::
  "(nat \<Rightarrow> real) \<Rightarrow> bool \<Rightarrow> real \<Rightarrow> real \<Rightarrow> node_in list \<Rightarrow> link list \<Rightarrow> string list \<Rightarrow> view \<Rightarrow> view" where
  "layout rnd refs width height nodes links myStockCodes v =
     (if nodes = [] \<or> \<not> refs then v\<lparr>v_cleanup := None, v_error := None\<rparr>
      else
        let (nodesData, linksData, k) =
              prepare (nodePositionsRef v) width height rnd (v_draws v) nodes links myStockCodes;
            v1 = stop_previous v;
            v2 = v1\<lparr>v_svg := None, v_frame := None, v_draws := k\<rparr>
        in case initialize_links nodesData linksData of
             Inl e \<Rightarrow>
               v2\<lparr>v_orphans := v_orphans v2 @ [started_only nodesData],
                  v_cleanup := None, v_error := Some e\<rparr>
           | Inr resolved \<Rightarrow>
               let new = length (v_sims v2)
               in v2\<lparr>v_sims := v_sims v2 @ [forceSimulation nodesData resolved width height],
                     simulationRef := Some new, v_svg := Some new,
                     v_cleanup := Some new, v_error := None\<rparr>)"

text \<open>The cleanup function of the effect that created simulation \<open>i\<close> (lines 170-172).\<close>

definition cleanup :: "nat \<Rightarrow> view \<Rightarrow> view" where
  "cleanup i v = v\<lparr>v_sims := modify_at i stop (v_sims v)\<rparr>"

text \<open>
  The teardown of the view: the cleanup function that the last run of the effect
  returned is called, if it returned one, and the SVG goes.
\<close>

definition teardown :: "view \<Rightarrow> view" where
  "teardown v =
     (case v_cleanup v of
        None \<Rightarrow> v
      | Some i \<Rightarrow> cleanup i v)\<lparr>v_cleanup := None, v_svg := None, v_frame := None\<rparr>"

text \<open>A step of the timer of a simulation that was only started.\<close>

definition orphan_tick :: "nat \<Rightarrow> orphan \<Rightarrow> orphan" where
  "orphan_tick default_steps o' =
     (if \<not> o_running o' then o'
      else o'\<lparr>o_steps := Suc (o_steps o'), o_running := (Suc (o_steps o') < default_steps)\<rparr>)"

text \<open>
  What can happen to the component: a run of the effect; a call of the cleanup function
  of an effect, which is made before the next run of the effect; a step of the timer of
  simulation \<open>i\<close>; the start, a move and the end of a drag gesture on circle \<open>k\<close> of
  simulation \<open>i\<close>; a step of the timer of a simulation that was only started; the
  teardown of the view.
\<close>

datatype event =
    Layout bool real real "node_in list" "link list" "string list"
  | Cleanup nat
  | Tick nat
  | DragStart nat nat
  | DragMove nat nat jsnum jsnum
  | DragEnd nat nat
  | OrphanTick nat
  | Teardown

text \<open>
  A timer step runs the library's step and the tick callback; when alpha is then below
  the floor the timer stops and the end callback runs. A gesture starts only on a circle
  that is in the SVG; it goes on, and ends, on the simulation it started on. The drag
  library sets \<open>event.active\<close>: on start to the number of the other gestures in progress,
  on end to the number of those that remain.
\<close>

fun step :: "world \<Rightarrow> event \<Rightarrow> view \<Rightarrow> view" where
  "step w (Layout refs width height nodes links myStockCodes) v =
     layout (w_rnd w) refs width height nodes links myStockCodes v"
| "step w (Cleanup i) v = cleanup i v"
| "step w (Tick i) v =
     (case fetch_at (v_sims v) i of
        None \<Rightarrow> v
      | Some s \<Rightarrow>
          if \<not> s_running s then v
          else
            let s1 = engine_tick (w_move w) s;
                v1 = (if v_svg v = Some i then v\<lparr>v_frame := Some (on_tick s1)\<rparr> else v)
            in if s_alpha s1 < w_alphaMin w
               then v1\<lparr>v_sims := (v_sims v1)[i := stop s1],
                       nodePositionsRef := on_end s1 (nodePositionsRef v1)\<rparr>
               else v1\<lparr>v_sims := (v_sims v1)[i := s1]\<rparr>)"
| "step w (DragStart i k) v =
     (case fetch_at (v_sims v) i of
        None \<Rightarrow> v
      | Some s \<Rightarrow>
          if v_svg v = Some i \<and> k < length (s_nodes s)
          then let s1 = dragstarted (length (s_gestures s)) k s
               in v\<lparr>v_sims := (v_sims v)[i := s1\<lparr>s_gestures := k # s_gestures s1\<rparr>]\<rparr>
          else v)"
| "step w (DragMove i k x y) v =
     (case fetch_at (v_sims v) i of
        None \<Rightarrow> v
      | Some s \<Rightarrow>
          if k \<in> set (s_gestures s)
          then v\<lparr>v_sims := (v_sims v)[i := dragged k x y s]\<rparr>
          else v)"
| "step w (DragEnd i k) v =
     (case fetch_at (v_sims v) i of
        None \<Rightarrow> v
      | Some s \<Rightarrow>
          if k \<in> set (s_gestures s)
          then let s1 = s\<lparr>s_gestures := remove1 k (s_gestures s)\<rparr>;
                   (s2, c) = dragended (length (s_gestures s1)) k s1 (nodePositionsRef v)
               in v\<lparr>v_sims := (v_sims v)[i := s2], nodePositionsRef := c\<rparr>
          else v)"
| "step w (OrphanTick i) v =
     v\<lparr>v_orphans := modify_at i (orphan_tick (w_default_steps w)) (v_orphans v)\<rparr>"
| "step w Teardown v = teardown v"

fun run :: "world \<Rightarrow> event list \<Rightarrow> view \<Rightarrow> view" where
  "run w [] v = v"
| "run w (e # es) v = run w es (step w e v)"

section \<open>The classifier as the specification words it\<close>

fun is_id :: "endpoint \<Rightarrow> bool" where
  "is_id (EId s) = True"
| "is_id (ENode s) = False"

text \<open>
  Both endpoints of a link have the same form: ids in a snapshot, node objects once the
  force library has resolved a link.
\<close>

definition uniform_link :: "link \<Rightarrow> bool" where
  "uniform_link l = (is_id (l_source l) = is_id (l_target l))"

text \<open>Some link, in either direction, connects \<open>i\<close> to an anchor id.\<close>

definition connected_to_anchor :: "string set \<Rightarrow> link list \<Rightarrow> string \<Rightarrow> bool" where
  "connected_to_anchor anchors links i =
     (\<exists>l \<in> set links.
        (endpoint_id (l_source l) = i \<and> endpoint_id (l_target l) \<in> anchors) \<or>
        (endpoint_id (l_target l) = i \<and> endpoint_id (l_source l) \<in> anchors))"

text \<open>Anchor is \<open>MyStock\<close> (\<open>'my-stock'\<close>) in the component.\<close>

definition classification :: "string set \<Rightarrow> link list \<Rightarrow> string \<Rightarrow> node_type" where
  "classification anchors links i =
     (if i \<in> anchors then MyStock
      else if connected_to_anchor anchors links i then Related
      else Other)"

fun radius_of :: "node_type \<Rightarrow> real" where
  "radius_of MyStock = 30"
| "radius_of Related = 20"
| "radius_of Other = 10"

section \<open>Example inputs\<close>

definition nodeA :: node_in where
  "nodeA = \<lparr>n_id = ''A'', n_name = ''a''\<rparr>"

definition nodeB :: node_in where
  "nodeB = \<lparr>n_id = ''B'', n_name = ''b''\<rparr>"

definition nodeC :: node_in where
  "nodeC = \<lparr>n_id = ''C'', n_name = ''c''\<rparr>"

definition link_between :: "string \<Rightarrow> string \<Rightarrow> real \<Rightarrow> link" where
  "link_between s t w = \<lparr>l_source = EId s, l_target = EId t, l_value = w\<rparr>"

text \<open>
  A world whose forces send every free node to \<open>(1, 2)\<close> and leave it at rest, and one
  where they blow up.
\<close>

definition calm_world :: world where
  "calm_world =
     \<lparr>w_rnd = (\<lambda>k. 1 / 4), w_move = (\<lambda>nodes n. ((Fin 1, Fin 2), (Fin 0, Fin 0))),
      w_alphaMin = 1 / 1000, w_default_steps = 300\<rparr>"

definition wild_world :: world where
  "wild_world =
     \<lparr>w_rnd = (\<lambda>k. 1 / 4), w_move = (\<lambda>nodes n. ((NaN, PosInf), (Fin 0, NegInf))),
      w_alphaMin = 1 / 1000, w_default_steps = 300\<rparr>"

section \<open>Invariants of the component\<close>

text \<open>
  Of the simulations whose setup was completed only the one in \<open>simulationRef.current\<close>
  runs; its circles are the ones in the SVG, and it is the one that the cleanup function
  returned by the last run of the effect stops.
\<close>

definition one_running :: "view \<Rightarrow> bool" where
  "one_running v =
     ((\<forall>i < length (v_sims v). s_running (v_sims v ! i) \<longrightarrow> simulationRef v = Some i)
      \<and> (\<forall>i. v_svg v = Some i \<longrightarrow> simulationRef v = Some i)
      \<and> (\<forall>i. v_cleanup v = Some i \<longrightarrow> simulationRef v = Some i))"


text \<open>
  Every link id of a snapshot is the id of one of its nodes, and an event is settled when
  it is no run of the effect on a snapshot where one is not.
\<close>

fun known_end :: "node_in list \<Rightarrow> endpoint \<Rightarrow> bool" where
  "known_end nodes (EId s) = (s \<in> set (map n_id nodes))"
| "known_end nodes (ENode s) = True"

definition resolvable :: "node_in list \<Rightarrow> link list \<Rightarrow> bool" where
  "resolvable nodes links =
     list_all (\<lambda>l. known_end nodes (l_source l) \<and> known_end nodes (l_target l)) links"

fun settled :: "event \<Rightarrow> bool" where
  "settled (Layout refs width height nodes links myStockCodes) = resolvable nodes links"
| "settled e = True"

text \<open>The number of simulations whose timer runs, completed or only started.\<close>

definition running_count :: "view \<Rightarrow> nat" where
  "running_count v =
     length (filter s_running (v_sims v)) + length (filter o_running (v_orphans v))"

text \<open>The ends of the links of a simulation are among its nodes.\<close>

fun end_in_range :: "nat \<Rightarrow> link_end \<Rightarrow> bool" where
  "end_in_range m (AtNode i) = (i < m)"
| "end_in_range m (Object s) = True"

definition links_in_range :: "simulation \<Rightarrow> bool" where
  "links_in_range s =
     list_all (\<lambda>l. end_in_range (length (s_nodes s)) (sl_source l)
                 \<and> end_in_range (length (s_nodes s)) (sl_target l)) (s_links s)"

text \<open>
  The positions in a simulation are finite, and so are the positions drawn: those of the
  circles and labels, and of every end of a line that is at a node of the simulation.
\<close>

definition finite_nodes :: "simulation \<Rightarrow> bool" where
  "finite_nodes s = list_all (\<lambda>n. finite_pair (n_x n, n_y n)) (s_nodes s)"

fun finite_end :: "(jsnum \<times> jsnum) option \<Rightarrow> bool" where
  "finite_end None = True"
| "finite_end (Some p) = finite_pair p"

definition finite_frame :: "frame \<Rightarrow> bool" where
  "finite_frame fr =
     (list_all finite_pair (f_circles fr) \<and> list_all finite_pair (f_labels fr)
      \<and> list_all (\<lambda>l. finite_end (fst l) \<and> finite_end (snd l)) (f_lines fr))"

text \<open>Every end of a line that is at a node of the simulation is drawn at that node.\<close>

fun drawn_at :: "sim_node list \<Rightarrow> link_end \<Rightarrow> (jsnum \<times> jsnum) option \<Rightarrow> bool" where
  "drawn_at nodes (AtNode i) p = (i < length nodes \<and> p = Some (n_x (nodes ! i), n_y (nodes ! i)))"
| "drawn_at nodes (Object s) p = True"

definition lines_at_nodes :: "simulation \<Rightarrow> bool" where
  "lines_at_nodes s =
     list_all (\<lambda>l. drawn_at (s_nodes s) (sl_source l) (fst (line_attrs (s_nodes s) l))
                 \<and> drawn_at (s_nodes s) (sl_target l) (snd (line_attrs (s_nodes s) l))) (s_links s)"

section \<open>What seeding promises\<close>

text \<open>A finite coordinate within 50 of the centre of an extent.\<close>

definition near_centre :: "real \<Rightarrow> jsnum \<Rightarrow> bool" where
  "near_centre extent v =
     (case v of Fin x \<Rightarrow> extent / 2 - 50 \<le> x \<and> x < extent / 2 + 50 | _ \<Rightarrow> False)"

text \<open>A cached pin that is a truthy number is restored; no cached pin gives none.\<close>

definition pin_restored :: "jsnum option \<Rightarrow> jsnum option \<Rightarrow> bool" where
  "pin_restored cached seeded =
     (case cached of None \<Rightarrow> seeded = None | Some f \<Rightarrow> truthy f \<longrightarrow> seeded = Some f)"

text \<open>
  Node \<open>n\<close> is seeded for the element \<open>d\<close> of the snapshot: from the cache entry of its
  id, in each coordinate that is a truthy number there, or near the centre of the
  canvas and free when the id has no entry.
\<close>

definition seeded_from :: "cache \<Rightarrow> real \<Rightarrow> real \<Rightarrow> node_in \<Rightarrow> 'a seeded_node_scheme \<Rightarrow> bool" where
  "seeded_from cache width height d n =
     (n_id n = n_id d \<and>
      (case cache (n_id d) of
         None \<Rightarrow> near_centre width (n_x n) \<and> near_centre height (n_y n)
                 \<and> n_fx n = None \<and> n_fy n = None
       | Some e \<Rightarrow> (truthy (c_x e) \<longrightarrow> n_x n = c_x e) \<and> (truthy (c_y e) \<longrightarrow> n_y n = c_y e)
                   \<and> pin_restored (c_fx e) (n_fx n) \<and> pin_restored (c_fy e) (n_fy n)))"

text \<open>A world whose random draws change after the second one.\<close>

definition shifting_world :: world where
  "shifting_world =
     \<lparr>w_rnd = (\<lambda>k. if k < 2 then 1 / 4 else 3 / 4),
      w_move = (\<lambda>nodes n. ((Fin 1, Fin 2), (Fin 0, Fin 0))),
      w_alphaMin = 1 / 1000, w_default_steps = 300\<rparr>"

section \<open>The props as objects in a store\<close>

text \<open>
  To say that the props are not mutated, the objects get addresses. A store is the list
  of the objects allocated so far, and the address of an object is its index. The
  props hold addresses: of the \<open>nodes\<close> array and of the \<open>links\<close> array, whose elements
  are addresses of node and link objects, and of the \<open>myStockCodes\<close> array of strings.
\<close>

type_synonym addr = nat

datatype obj =
    ONode node_in
  | OLink link
  | OSeeded seeded_node
  | OSim sim_node
  | OArray "addr list"
  | OStrings "string list"

type_synonym store = "obj list"

record props =
  p_nodes :: addr
  p_links :: addr
  p_myStockCodes :: addr

text \<open>A new object gets the next address; an assignment to a field replaces the object.\<close>

definition alloc :: "obj \<Rightarrow> store \<Rightarrow> addr \<times> store" where
  "alloc ob h = (length h, h @ [ob])"

definition put :: "addr \<Rightarrow> obj \<Rightarrow> store \<Rightarrow> store" where
  "put a ob h = (if a < length h then h[a := ob] else h)"

text \<open>
  Lines 19-29 on the store: \<open>nodes.map\<close> reads every element and allocates the object
  literal built from it. The result is \<open>None\<close> where an address does not hold an object
  of the expected kind, which no JavaScript value does.
\<close>

fun map_nodes ::
  "cache \<Rightarrow> real \<Rightarrow> real \<Rightarrow> (nat \<Rightarrow> real) \<Rightarrow> nat \<Rightarrow> addr list \<Rightarrow> store
     \<Rightarrow> (addr list \<times> nat \<times> store) option" where
  "map_nodes cache width height rnd k [] h = Some ([], k, h)"
| "map_nodes cache width height rnd k (a # as) h =
     (case fetch_at h a of
        Some (ONode d) \<Rightarrow>
          (let (n, k1) = seed_node cache width height rnd k d;
               (a', h1) = alloc (OSeeded n) h
           in case map_nodes cache width height rnd k1 as h1 of
                None \<Rightarrow> None
              | Some (as', k2, h2) \<Rightarrow> Some (a' # as', k2, h2))
      | _ \<Rightarrow> None)"

text \<open>Line 30 on the store.\<close>

fun map_links :: "addr list \<Rightarrow> store \<Rightarrow> (addr list \<times> store) option" where
  "map_links [] h = Some ([], h)"
| "map_links (a # as) h =
     (case fetch_at h a of
        Some (OLink d) \<Rightarrow>
          (let (a', h1) = alloc (OLink \<lparr>l_source = l_source d, l_target = l_target d, l_value = l_value d\<rparr>) h
           in case map_links as h1 of
                None \<Rightarrow> None
              | Some (as', h2) \<Rightarrow> Some (a' # as', h2))
      | _ \<Rightarrow> None)"

text \<open>The links at the addresses of \<open>linksData\<close>.\<close>

fun read_links :: "store \<Rightarrow> addr list \<Rightarrow> link list option" where
  "read_links h [] = Some []"
| "read_links h (a # as) =
     (case fetch_at h a of
        Some (OLink d) \<Rightarrow> map_option ((#) d) (read_links h as)
      | _ \<Rightarrow> None)"

text \<open>
  Lines 33-57 on the store: for every element of \<open>nodesData\<close> the pass reads
  \<open>myStockCodes\<close> and \<open>linksData\<close> and assigns \<open>type\<close>, \<open>radius\<close> and \<open>color\<close> to the element.
\<close>

fun style_pass :: "addr \<Rightarrow> addr list \<Rightarrow> addr list \<Rightarrow> store \<Rightarrow> store option" where
  "style_pass codes linksData [] h = Some h"
| "style_pass codes linksData (a # as) h =
     (case fetch_at h a of
        Some (OSeeded node) \<Rightarrow>
          (case fetch_at h codes of
             Some (OStrings myStockCodes) \<Rightarrow>
               (case read_links h linksData of
                  None \<Rightarrow> None
                | Some links \<Rightarrow>
                    style_pass codes linksData as
                      (put a (OSim (style_node myStockCodes links node)) h))
           | _ \<Rightarrow> None)
      | _ \<Rightarrow> None)"

text \<open>
  Lines 19-57 on the store. The result holds the addresses of the arrays \<open>nodesData\<close> and
  \<open>linksData\<close>, which are what the simulation, the link force, the renderer and the drag
  handlers get.
\<close>

definition prepare_store ::
  "cache \<Rightarrow> real \<Rightarrow> real \<Rightarrow> (nat \<Rightarrow> real) \<Rightarrow> nat \<Rightarrow> props \<Rightarrow> store
     \<Rightarrow> (addr \<times> addr \<times> nat \<times> store) option" where
  "prepare_store cache width height rnd k p h =
     (case fetch_at h (p_nodes p) of
        Some (OArray ns) \<Rightarrow>
          (case map_nodes cache width height rnd k ns h of
             None \<Rightarrow> None
           | Some (nd, k', h1) \<Rightarrow>
               (let (nodesData, h2) = alloc (OArray nd) h1
                in case fetch_at h2 (p_links p) of
                     Some (OArray ls) \<Rightarrow>
                       (case map_links ls h2 of
                          None \<Rightarrow> None
                        | Some (ld, h3) \<Rightarrow>
                            (let (linksData, h4) = alloc (OArray ld) h3
                             in case style_pass (p_myStockCodes p) ld nd h4 of
                                  None \<Rightarrow> None
                                | Some h5 \<Rightarrow> Some (nodesData, linksData, k', h5)))
                   | _ \<Rightarrow> None))
      | _ \<Rightarrow> None)"

text \<open>A snapshot of three nodes and one link, with one anchor, as props in a store.\<close>

definition example_store :: store where
  "example_store =
     [ONode nodeA, ONode nodeB, ONode nodeC, OArray [0, 1, 2],
      OLink (link_between ''A'' ''B'' (8 / 10)), OArray [4], OStrings [''A'']]"

definition example_props :: props where
  "example_props = \<lparr>p_nodes = 3, p_links = 5, p_myStockCodes = 6\<rparr>"

section \<open>Properties of seeding and styling\<close>

lemma clone_link_eq: "\<lparr>l_source = l_source d, l_target = l_target d, l_value = l_value d\<rparr> = d"
  by (cases d) simp

lemma clone_links_eq: "clone_links links = links"
  by (simp add: clone_links_def clone_link_eq)

lemma seed_node_id: "n_id (fst (seed_node cache width height rnd k d)) = n_id d"
  by (simp add: seed_node_def Let_def split: prod.splits)

lemma seed_nodes_ids: "map n_id (fst (seed_nodes cache width height rnd k ds)) = map n_id ds"
proof (induction ds arbitrary: k)
  case Nil
  show ?case by simp
next
  case (Cons d ds)
  obtain n k1 where s: "seed_node cache width height rnd k d = (n, k1)"
    by (cases "seed_node cache width height rnd k d")
  have "n_id n = n_id d"
    using seed_node_id [of cache width height rnd k d] s by simp
  then show ?case
    using Cons.IH [of k1] s by (cases "seed_nodes cache width height rnd k1 ds") simp
qed

lemma isRelated_link_iff:
  assumes "uniform_link l"
  shows "((strict_eq (l_source l) i \<and> includes_endpoint codes (l_target l)) \<or>
          (strict_eq (l_target l) i \<and> includes_endpoint codes (l_source l)) \<or>
          (opt_id (l_source l) = Some i \<and> includes_opt codes (opt_id (l_target l))) \<or>
          (opt_id (l_target l) = Some i \<and> includes_opt codes (opt_id (l_source l))))
         = ((endpoint_id (l_source l) = i \<and> endpoint_id (l_target l) \<in> set codes) \<or>
            (endpoint_id (l_target l) = i \<and> endpoint_id (l_source l) \<in> set codes))"
  using assms
  by (cases "l_source l"; cases "l_target l") (auto simp: uniform_link_def)

lemma isRelated_iff:
  assumes "\<forall>l \<in> set links. uniform_link l"
  shows "isRelated codes links i = connected_to_anchor (set codes) links i"
  unfolding isRelated_def connected_to_anchor_def list_ex_iff
  using assms isRelated_link_iff by blast

lemma style_node_type:
  "n_type (style_node codes links n) =
     (if n_id n \<in> set codes then MyStock
      else if isRelated codes links (n_id n) then Related else Other)"
  by (simp add: style_node_def)

lemma style_node_radius: "n_radius (style_node codes links n) = radius_of (n_type (style_node codes links n))"
  by (simp add: style_node_def)

lemma style_node_id: "n_id (style_node codes links n) = n_id n"
  by (simp add: style_node_def split: prod.splits)

lemma style_node_classification:
  assumes "\<forall>l \<in> set links. uniform_link l"
  shows "n_type (style_node codes links n) = classification (set codes) links (n_id n)"
  by (simp add: style_node_type classification_def isRelated_iff [OF assms])

lemma classification_no_anchor: "classification {} links i = Other"
  by (simp add: classification_def connected_to_anchor_def)

lemma radius_of_pos: "0 < radius_of t"
  by (cases t) simp_all

lemma prepare_nodes:
  "fst (prepare cache width height rnd k nodes links codes)
     = map (style_node codes links) (fst (seed_nodes cache width height rnd k nodes))"
  by (simp add: prepare_def clone_links_eq Let_def split: prod.splits)

lemma prepare_summary:
  assumes "\<forall>l \<in> set links. uniform_link l"
  shows "map (\<lambda>n. (n_id n, n_type n, n_radius n))
           (fst (prepare cache width height rnd k nodes links codes))
         = map (\<lambda>d. (n_id d, classification (set codes) links (n_id d),
                      radius_of (classification (set codes) links (n_id d)))) nodes"
proof -
  let ?seeded = "fst (seed_nodes cache width height rnd k nodes)"
  have "map (\<lambda>n. (n_id n, n_type n, n_radius n)) (map (style_node codes links) ?seeded)
        = map (\<lambda>i. (i, classification (set codes) links i,
                      radius_of (classification (set codes) links i))) (map n_id ?seeded)"
    by (simp add: style_node_id style_node_radius style_node_classification [OF assms])
  also have "\<dots> = map (\<lambda>d. (n_id d, classification (set codes) links (n_id d),
                      radius_of (classification (set codes) links (n_id d)))) nodes"
    by (simp add: seed_nodes_ids)
  finally show ?thesis
    by (simp add: prepare_nodes)
qed

text \<open>
  C1. Every node of the snapshot gets exactly one type, in the snapshot's order:
  \<open>MyStock\<close> when its id is an anchor, \<open>Related\<close> when it is not and some link, in either
  direction, connects it to an anchor id, \<open>Other\<close> otherwise. Its radius is 30, 20 or 10
  by type and positive. Type and radius do not depend on the cache, the canvas or the
  random draws. With no anchors every node is \<open>Other\<close>.
\<close>

theorem classification_correct:
  assumes "\<forall>l \<in> set links. uniform_link l"
  shows "map (\<lambda>n. (n_id n, n_type n, n_radius n))
           (fst (prepare cache width height rnd k nodes links codes))
         = map (\<lambda>d. (n_id d, classification (set codes) links (n_id d),
                      radius_of (classification (set codes) links (n_id d)))) nodes
       \<and> (\<forall>n \<in> set (fst (prepare cache width height rnd k nodes links codes)).
             n_radius n = radius_of (n_type n) \<and> 0 < n_radius n)
       \<and> (\<forall>n \<in> set (fst (prepare cache width height rnd k nodes links [])). n_type n = Other)
       \<and> radius_of MyStock = 30 \<and> radius_of Related = 20 \<and> radius_of Other = 10"
proof -
  have r: "\<forall>n \<in> set (fst (prepare cache width height rnd k nodes links codes)).
             n_radius n = radius_of (n_type n) \<and> 0 < n_radius n"
    by (auto simp: prepare_nodes style_node_radius radius_of_pos)
  have e: "\<forall>n \<in> set (fst (prepare cache width height rnd k nodes links [])). n_type n = Other"
    by (auto simp: prepare_nodes style_node_classification [OF assms] classification_no_anchor)
  have c: "radius_of MyStock = 30 \<and> radius_of Related = 20 \<and> radius_of Other = 10"
    by simp
  show ?thesis
    using prepare_summary [OF assms] r e c by blast
qed

theorem classification_correct_witness:
  "map (\<lambda>n. (n_id n, n_type n, n_radius n))
     (fst (prepare Map.empty 800 500 (\<lambda>k. 1 / 4) 0
        [\<lparr>n_id = ''A'', n_name = ''a''\<rparr>, \<lparr>n_id = ''B'', n_name = ''b''\<rparr>,
         \<lparr>n_id = ''C'', n_name = ''c''\<rparr>]
        [\<lparr>l_source = EId ''A'', l_target = EId ''B'', l_value = 8 / 10\<rparr>] [''A'']))
   = [(''A'', MyStock, 30), (''B'', Related, 20), (''C'', Other, 10)]"
  using classification_correct [of "[\<lparr>l_source = EId ''A'', l_target = EId ''B'', l_value = 8 / 10\<rparr>]"
      Map.empty 800 500 "\<lambda>k. 1 / 4" 0
      "[\<lparr>n_id = ''A'', n_name = ''a''\<rparr>, \<lparr>n_id = ''B'', n_name = ''b''\<rparr>,
        \<lparr>n_id = ''C'', n_name = ''c''\<rparr>]" "[''A'']"]
  by (simp add: uniform_link_def classification_def connected_to_anchor_def)

section \<open>The link force\<close>

lemma stroke_width_mono:
  assumes "0 \<le> l_value l2" "l_value l2 < l_value l1"
  shows "\<exists>a b. stroke_width l1 = Fin a \<and> stroke_width l2 = Fin b \<and> b < a"
  using assms by (simp add: stroke_width_def)

text \<open>
  C4, as the code has it. Every link has the same stiffness, 0.3, and the same rest
  distance, 100, whatever its weight. The weight of a link decides only the width of
  the line drawn for it, which grows with the weight.
\<close>

theorem link_force_uniform:
  "link_strength l1 = 3 / 10 \<and> link_distance l1 = 100
   \<and> link_strength l1 = link_strength l2 \<and> link_distance l1 = link_distance l2
   \<and> (0 \<le> l_value l2 \<and> l_value l2 < l_value l1 \<longrightarrow>
        (\<exists>a b. stroke_width l1 = Fin a \<and> stroke_width l2 = Fin b \<and> b < a))"
  using stroke_width_mono [of l2 l1] by (simp add: link_strength_def link_distance_def)

theorem link_force_uniform_witness:
  "\<exists>a b. stroke_width (link_between ''A'' ''B'' 4) = Fin a
       \<and> stroke_width (link_between ''A'' ''C'' 1) = Fin b \<and> b < a"
  using link_force_uniform [of "link_between ''A'' ''B'' 4" "link_between ''A'' ''C'' 1"]
  by (simp add: link_between_def)

theorem link_force_counterexample:
  "l_value (link_between ''A'' ''C'' (2 / 10)) < l_value (link_between ''A'' ''B'' (9 / 10))
   \<and> \<not> link_strength (link_between ''A'' ''C'' (2 / 10)) < link_strength (link_between ''A'' ''B'' (9 / 10))
   \<and> \<not> link_distance (link_between ''A'' ''B'' (9 / 10)) < link_distance (link_between ''A'' ''C'' (2 / 10))"
  by (simp add: link_between_def link_strength_def link_distance_def)

section \<open>The link force and the run of the effect\<close>

lemma prepare_links: "fst (snd (prepare cache width height rnd k nodes links codes)) = links"
  by (simp add: prepare_def clone_links_eq Let_def split: prod.splits)

lemma prepare_ids: "map n_id (fst (prepare cache width height rnd k nodes links codes)) = map n_id nodes"
proof -
  have "map n_id (map (style_node codes links) xs) = map n_id xs" for xs
    by (simp add: style_node_id)
  then show ?thesis
    by (simp only: prepare_nodes seed_nodes_ids)
qed

lemma prepare_split:
  "prepare cache width height rnd k nodes links codes
     = (fst (prepare cache width height rnd k nodes links codes), links,
        snd (snd (prepare cache width height rnd k nodes links codes)))"
  using prepare_links [of cache width height rnd k nodes links codes]
  by (cases "prepare cache width height rnd k nodes links codes") auto

lemma index_by_id_None: "(index_by_id i ns s = None) = (s \<notin> set (map n_id ns))"
proof (induction ns arbitrary: i)
  case Nil
  show ?case by simp
next
  case (Cons n ns)
  show ?case
  proof (cases "index_by_id (Suc i) ns s")
    case None
    then have "s \<notin> set (map n_id ns)"
      using Cons.IH [of "Suc i"] by simp
    with None show ?thesis by auto
  next
    case (Some j)
    then have "s \<in> set (map n_id ns)"
      using Cons.IH [of "Suc i"] by simp
    with Some show ?thesis by simp
  qed
qed

lemma index_by_id_range: "index_by_id i ns s = Some j \<Longrightarrow> i \<le> j \<and> j < i + length ns"
proof (induction ns arbitrary: i)
  case Nil
  then show ?case by simp
next
  case (Cons n ns)
  show ?case
  proof (cases "index_by_id (Suc i) ns s")
    case None
    with Cons.prems show ?thesis
      by (auto split: if_splits)
  next
    case (Some j')
    with Cons.prems have "j' = j" by simp
    with Cons.IH [of "Suc i"] Some show ?thesis by simp
  qed
qed

lemma resolve_end_error:
  "resolve_end nd e = Inl err \<Longrightarrow> \<exists>s. e = EId s \<and> err = NodeNotFound s \<and> s \<notin> set (map n_id nd)"
  by (cases e) (auto simp: find_node_def index_by_id_None split: option.splits)

lemma resolve_end_range: "resolve_end nd e = Inr r \<Longrightarrow> end_in_range (length nd) r"
  using index_by_id_range [of 0 nd]
  by (cases e) (auto simp: find_node_def split: option.splits)

lemma resolve_end_known:
  assumes "map n_id nd = map n_id nodes"
  shows "(\<exists>r. resolve_end nd e = Inr r) = known_end nodes e"
proof (cases e)
  case (EId s)
  show ?thesis
  proof (cases "index_by_id 0 nd s")
    case None
    then have "s \<notin> set (map n_id nodes)"
      using index_by_id_None [of 0 nd s] assms by simp
    with None show ?thesis
      using EId by (simp add: find_node_def)
  next
    case (Some j)
    then have "s \<in> set (map n_id nodes)"
      using index_by_id_None [of 0 nd s] assms by simp
    with Some show ?thesis
      using EId by (simp add: find_node_def)
  qed
next
  case (ENode s)
  then show ?thesis by simp
qed

lemma initialize_links_range:
  "initialize_links nd links = Inr rs
   \<Longrightarrow> list_all (\<lambda>l. end_in_range (length nd) (sl_source l)
                    \<and> end_in_range (length nd) (sl_target l)) rs
       \<and> map sl_value rs = map l_value links"
proof (induction links arbitrary: rs)
  case Nil
  then show ?case by simp
next
  case (Cons l links)
  from Cons.prems obtain s t rs' where
    s: "resolve_end nd (l_source l) = Inr s" and t: "resolve_end nd (l_target l) = Inr t"
    and rec: "initialize_links nd links = Inr rs'"
    and rs: "rs = \<lparr>sl_source = s, sl_target = t, sl_value = l_value l\<rparr> # rs'"
    by (auto split: sum.splits)
  show ?case
    using Cons.IH [OF rec] resolve_end_range [OF s] resolve_end_range [OF t] by (simp add: rs)
qed

lemma initialize_links_resolvable:
  assumes "map n_id nd = map n_id nodes"
  shows "(\<exists>rs. initialize_links nd links = Inr rs) = resolvable nodes links"
proof (induction links)
  case Nil
  show ?case by (simp add: resolvable_def)
next
  case (Cons l links)
  have s: "(\<exists>r. resolve_end nd (l_source l) = Inr r) = known_end nodes (l_source l)"
    and t: "(\<exists>r. resolve_end nd (l_target l) = Inr r) = known_end nodes (l_target l)"
    using resolve_end_known [OF assms] by simp_all
  have "(\<exists>rs. initialize_links nd (l # links) = Inr rs)
        = ((\<exists>r. resolve_end nd (l_source l) = Inr r) \<and> (\<exists>r. resolve_end nd (l_target l) = Inr r)
           \<and> (\<exists>rs. initialize_links nd links = Inr rs))"
    by (auto split: sum.splits)
  then show ?case
    using Cons.IH s t by (simp add: resolvable_def)
qed

lemma initialize_links_error:
  "initialize_links nd links = Inl err \<Longrightarrow> \<exists>s. err = NodeNotFound s \<and> s \<notin> set (map n_id nd)"
proof (induction links)
  case Nil
  then show ?case by simp
next
  case (Cons l links)
  show ?case
  proof (cases "resolve_end nd (l_source l)")
    case (Inl e)
    with Cons.prems have "e = err" by simp
    with Inl resolve_end_error show ?thesis by blast
  next
    case s: (Inr s)
    show ?thesis
    proof (cases "resolve_end nd (l_target l)")
      case (Inl e)
      with Cons.prems s have "e = err" by simp
      with Inl resolve_end_error show ?thesis by blast
    next
      case t: (Inr t)
      with Cons.prems s have "initialize_links nd links = Inl err"
        by (auto split: sum.splits)
      then show ?thesis by (rule Cons.IH)
    qed
  qed
qed

lemma stop_previous_others:
  "v_orphans (stop_previous v) = v_orphans v"
  "simulationRef (stop_previous v) = simulationRef v"
  "nodePositionsRef (stop_previous v) = nodePositionsRef v"
  "v_svg (stop_previous v) = v_svg v"
  "v_cleanup (stop_previous v) = v_cleanup v"
  by (simp_all add: stop_previous_def split: option.splits)

text \<open>The three ways a run of the effect ends.\<close>

lemma layout_skip:
  assumes "nodes = [] \<or> \<not> refs"
  shows "layout rnd refs width height nodes links codes v = v\<lparr>v_cleanup := None, v_error := None\<rparr>"
  using assms by (auto simp: layout_def)

lemma layout_throw:
  assumes "nodes \<noteq> []" "refs"
    and "initialize_links (fst (prepare (nodePositionsRef v) width height rnd (v_draws v) nodes links codes)) links
           = Inl e"
  shows "layout rnd refs width height nodes links codes v
         = (stop_previous v)
             \<lparr>v_svg := None, v_frame := None,
              v_draws := snd (snd (prepare (nodePositionsRef v) width height rnd (v_draws v) nodes links codes)),
              v_orphans := v_orphans v
                 @ [started_only (fst (prepare (nodePositionsRef v) width height rnd (v_draws v) nodes links codes))],
              v_cleanup := None, v_error := Some e\<rparr>"
  using assms
  by (subst layout_def, subst prepare_split) (simp add: stop_previous_others)

lemma layout_done:
  assumes "nodes \<noteq> []" "refs"
    and "initialize_links (fst (prepare (nodePositionsRef v) width height rnd (v_draws v) nodes links codes)) links
           = Inr rs"
  shows "layout rnd refs width height nodes links codes v
         = (stop_previous v)
             \<lparr>v_svg := None, v_frame := None,
              v_draws := snd (snd (prepare (nodePositionsRef v) width height rnd (v_draws v) nodes links codes)),
              v_sims := v_sims (stop_previous v)
                 @ [forceSimulation (fst (prepare (nodePositionsRef v) width height rnd (v_draws v) nodes links codes))
                      rs width height],
              simulationRef := Some (length (v_sims (stop_previous v))),
              v_svg := Some (length (v_sims (stop_previous v))),
              v_cleanup := Some (length (v_sims (stop_previous v))), v_error := None\<rparr>"
  using assms
  by (subst layout_def, subst prepare_split) (simp add: Let_def)

lemma layout_cases:
  obtains (skipped) "nodes = [] \<or> \<not> refs"
  | (thrown) e where "nodes \<noteq> []" "refs"
      "initialize_links (fst (prepare (nodePositionsRef v) width height rnd (v_draws v) nodes links codes)) links
         = Inl e"
  | (completed) rs where "nodes \<noteq> []" "refs"
      "initialize_links (fst (prepare (nodePositionsRef v) width height rnd (v_draws v) nodes links codes)) links
         = Inr rs"
  by (cases "initialize_links (fst (prepare (nodePositionsRef v) width height rnd (v_draws v) nodes links codes)) links")
    auto

text \<open>The same, by whether every link id of the snapshot is the id of a node.\<close>

lemma layout_unresolvable:
  assumes "nodes \<noteq> []" "refs" "\<not> resolvable nodes links"
  obtains s where "s \<notin> set (map n_id nodes)"
    and "layout rnd refs width height nodes links codes v
         = (stop_previous v)
             \<lparr>v_svg := None, v_frame := None,
              v_draws := snd (snd (prepare (nodePositionsRef v) width height rnd (v_draws v) nodes links codes)),
              v_orphans := v_orphans v
                 @ [started_only (fst (prepare (nodePositionsRef v) width height rnd (v_draws v) nodes links codes))],
              v_cleanup := None, v_error := Some (NodeNotFound s)\<rparr>"
proof -
  let ?nd = "fst (prepare (nodePositionsRef v) width height rnd (v_draws v) nodes links codes)"
  have ids: "map n_id ?nd = map n_id nodes"
    by (rule prepare_ids)
  have "\<not> (\<exists>rs. initialize_links ?nd links = Inr rs)"
    using initialize_links_resolvable [OF ids, of links] assms(3) by simp
  then obtain e where e: "initialize_links ?nd links = Inl e"
    by (cases "initialize_links ?nd links") auto
  from initialize_links_error [OF e] obtain s where
    s: "e = NodeNotFound s" "s \<notin> set (map n_id nodes)"
    using ids by auto
  show ?thesis
    using that [OF s(2)] layout_throw [OF assms(1,2) e] s(1) by simp
qed

lemma layout_resolvable:
  assumes "nodes \<noteq> []" "refs" "resolvable nodes links"
  obtains rs where "map sl_value rs = map l_value links"
    and "layout rnd refs width height nodes links codes v
         = (stop_previous v)
             \<lparr>v_svg := None, v_frame := None,
              v_draws := snd (snd (prepare (nodePositionsRef v) width height rnd (v_draws v) nodes links codes)),
              v_sims := v_sims (stop_previous v)
                 @ [forceSimulation (fst (prepare (nodePositionsRef v) width height rnd (v_draws v) nodes links codes))
                      rs width height],
              simulationRef := Some (length (v_sims (stop_previous v))),
              v_svg := Some (length (v_sims (stop_previous v))),
              v_cleanup := Some (length (v_sims (stop_previous v))), v_error := None\<rparr>"
proof -
  let ?nd = "fst (prepare (nodePositionsRef v) width height rnd (v_draws v) nodes links codes)"
  have ids: "map n_id ?nd = map n_id nodes"
    by (rule prepare_ids)
  obtain rs where rs: "initialize_links ?nd links = Inr rs"
    using initialize_links_resolvable [OF ids, of links] assms(3) by auto
  have "map sl_value rs = map l_value links"
    using initialize_links_range [OF rs] by simp
  then show ?thesis
    using that layout_done [OF assms(1,2) rs] by simp
qed

section \<open>Evaluation\<close>

lemmas model_defs =
  init_def layout_def prepare_def seed_node_def seed_coord_def seed_pin_def jitter_def
  clone_links_def style_node_def isRelated_def stop_previous_def forceSimulation_def
  fetch_at_def modify_at_def engine_tick_def engine_node_def engine_velocity_def
  sound_motion_def computed_position_def computed_velocity_def finite_pair_def
  pin_position_def find_node_def started_only_def orphan_tick_def teardown_def
  on_tick_def on_end_def
  entry_of_def dragstarted_def dragged_def dragended_def cleanup_def stop_def restart_def
  line_attrs_def Let_def

lemmas example_defs =
  nodeA_def nodeB_def nodeC_def link_between_def calm_world_def wild_world_def

section \<open>Links whose endpoints are no node\<close>

text \<open>
  C8, as the code has it. No link is dropped: every link of the snapshot, whether or
  not its endpoints are ids of nodes, is copied into \<open>linksData\<close> and given to the link
  force, and the component keeps no count. When some link id is the id of no node, the
  link force throws at line 69 and the run of the effect ends there with that error:
  the previous simulation has been stopped, the SVG is empty, a simulation has been
  started that is in no ref, nothing is laid out or drawn and no cleanup function is
  returned. When every link id is the id of a node, the run throws nothing and the new
  simulation has one link, with its weight, and one line for every link of the
  snapshot.
\<close>

theorem dangling_link_ends_run:
  "fst (snd (prepare cache width height rnd k nodes links codes)) = links
   \<and> (nodes \<noteq> [] \<and> refs \<and> \<not> resolvable nodes links \<longrightarrow>
        (\<exists>s. s \<notin> set (map n_id nodes)
           \<and> v_error (layout rnd refs width height nodes links codes v) = Some (NodeNotFound s))
        \<and> v_sims (layout rnd refs width height nodes links codes v) = v_sims (stop_previous v)
        \<and> v_orphans (layout rnd refs width height nodes links codes v)
            = v_orphans v
              @ [started_only (fst (prepare (nodePositionsRef v) width height rnd (v_draws v) nodes links codes))]
        \<and> simulationRef (layout rnd refs width height nodes links codes v) = simulationRef v
        \<and> v_svg (layout rnd refs width height nodes links codes v) = None
        \<and> v_frame (layout rnd refs width height nodes links codes v) = None
        \<and> v_cleanup (layout rnd refs width height nodes links codes v) = None)
   \<and> (nodes \<noteq> [] \<and> refs \<and> resolvable nodes links \<longrightarrow>
        v_error (layout rnd refs width height nodes links codes v) = None
        \<and> v_orphans (layout rnd refs width height nodes links codes v) = v_orphans v
        \<and> map sl_value (s_links (last (v_sims (layout rnd refs width height nodes links codes v))))
            = map l_value links
        \<and> length (f_lines (on_tick (last (v_sims (layout rnd refs width height nodes links codes v)))))
            = length links)"
proof -
  have a: "fst (snd (prepare cache width height rnd k nodes links codes)) = links"
    by (rule prepare_links)
  have b: "(\<exists>s. s \<notin> set (map n_id nodes)
           \<and> v_error (layout rnd refs width height nodes links codes v) = Some (NodeNotFound s))
        \<and> v_sims (layout rnd refs width height nodes links codes v) = v_sims (stop_previous v)
        \<and> v_orphans (layout rnd refs width height nodes links codes v)
            = v_orphans v
              @ [started_only (fst (prepare (nodePositionsRef v) width height rnd (v_draws v) nodes links codes))]
        \<and> simulationRef (layout rnd refs width height nodes links codes v) = simulationRef v
        \<and> v_svg (layout rnd refs width height nodes links codes v) = None
        \<and> v_frame (layout rnd refs width height nodes links codes v) = None
        \<and> v_cleanup (layout rnd refs width height nodes links codes v) = None"
    if "nodes \<noteq> []" "refs" "\<not> resolvable nodes links"
  proof -
    from that obtain s where "s \<notin> set (map n_id nodes)"
      and "layout rnd refs width height nodes links codes v
         = (stop_previous v)
             \<lparr>v_svg := None, v_frame := None,
              v_draws := snd (snd (prepare (nodePositionsRef v) width height rnd (v_draws v) nodes links codes)),
              v_orphans := v_orphans v
                 @ [started_only (fst (prepare (nodePositionsRef v) width height rnd (v_draws v) nodes links codes))],
              v_cleanup := None, v_error := Some (NodeNotFound s)\<rparr>"
      by (rule layout_unresolvable)
    then show ?thesis
      by (auto simp: stop_previous_others)
  qed
  have c: "v_error (layout rnd refs width height nodes links codes v) = None
        \<and> v_orphans (layout rnd refs width height nodes links codes v) = v_orphans v
        \<and> map sl_value (s_links (last (v_sims (layout rnd refs width height nodes links codes v))))
            = map l_value links
        \<and> length (f_lines (on_tick (last (v_sims (layout rnd refs width height nodes links codes v)))))
            = length links"
    if "nodes \<noteq> []" "refs" "resolvable nodes links"
  proof -
    from that obtain rs where rs: "map sl_value rs = map l_value links"
      and "layout rnd refs width height nodes links codes v
         = (stop_previous v)
             \<lparr>v_svg := None, v_frame := None,
              v_draws := snd (snd (prepare (nodePositionsRef v) width height rnd (v_draws v) nodes links codes)),
              v_sims := v_sims (stop_previous v)
                 @ [forceSimulation (fst (prepare (nodePositionsRef v) width height rnd (v_draws v) nodes links codes))
                      rs width height],
              simulationRef := Some (length (v_sims (stop_previous v))),
              v_svg := Some (length (v_sims (stop_previous v))),
              v_cleanup := Some (length (v_sims (stop_previous v))), v_error := None\<rparr>"
      by (rule layout_resolvable)
    moreover have "length rs = length links"
      using rs map_eq_imp_length_eq by blast
    ultimately show ?thesis
      by (simp add: stop_previous_others forceSimulation_def on_tick_def)
  qed
  show ?thesis
    using a b c by blast
qed

theorem dangling_link_ends_run_witness:
  "v_error (layout (\<lambda>k. 1 / 4) True 800 500 [nodeA, nodeB]
       [link_between ''A'' ''B'' 1, link_between ''A'' ''Z'' 1] [] init) = Some (NodeNotFound ''Z'')
   \<and> map sl_value (s_links (last (v_sims (layout (\<lambda>k. 1 / 4) True 800 500 [nodeA, nodeB]
       [link_between ''A'' ''B'' 1] [] init)))) = [1]"
proof -
  have u: "[nodeA, nodeB] \<noteq> [] \<and> True
           \<and> \<not> resolvable [nodeA, nodeB] [link_between ''A'' ''B'' 1, link_between ''A'' ''Z'' 1]"
    and r: "[nodeA, nodeB] \<noteq> [] \<and> True \<and> resolvable [nodeA, nodeB] [link_between ''A'' ''B'' 1]"
    by (simp_all add: resolvable_def example_defs)
  have e: "v_error (layout (\<lambda>k. 1 / 4) True 800 500 [nodeA, nodeB]
       [link_between ''A'' ''B'' 1, link_between ''A'' ''Z'' 1] [] init) = Some (NodeNotFound ''Z'')"
    by code_simp
  show ?thesis
    using u r e
      dangling_link_ends_run [of Map.empty 800 500 "\<lambda>k. 1 / 4" 0 "[nodeA, nodeB]"
        "[link_between ''A'' ''B'' 1, link_between ''A'' ''Z'' 1]" "[]" True init]
      dangling_link_ends_run [of Map.empty 800 500 "\<lambda>k. 1 / 4" 0 "[nodeA, nodeB]"
        "[link_between ''A'' ''B'' 1]" "[]" True init]
    by (simp add: link_between_def)
qed

theorem dangling_link_counterexample:
  "''Z'' \<notin> set (map n_id [nodeA, nodeB])
   \<and> fst (snd (prepare Map.empty 800 500 (\<lambda>k. 1 / 4) 0 [nodeA, nodeB]
        [link_between ''A'' ''B'' 1, link_between ''A'' ''Z'' 1] []))
       = [link_between ''A'' ''B'' 1, link_between ''A'' ''Z'' 1]
   \<and> v_error (run calm_world [Layout True 800 500 [nodeA, nodeB]
        [link_between ''A'' ''B'' 1, link_between ''A'' ''Z'' 1] []] init) = Some (NodeNotFound ''Z'')
   \<and> length (v_sims (run calm_world [Layout True 800 500 [nodeA, nodeB]
        [link_between ''A'' ''B'' 1, link_between ''A'' ''Z'' 1] []] init)) = 0
   \<and> v_svg (run calm_world [Layout True 800 500 [nodeA, nodeB]
        [link_between ''A'' ''B'' 1, link_between ''A'' ''Z'' 1] []] init) = None
   \<and> map o_running (v_orphans (run calm_world [Layout True 800 500 [nodeA, nodeB]
        [link_between ''A'' ''B'' 1, link_between ''A'' ''Z'' 1] []] init)) = [True]"
  by code_simp

section \<open>Writes to the position cache\<close>

lemma cache_layout:
  "nodePositionsRef (layout rnd refs width height nodes links codes v) = nodePositionsRef v"
proof (cases rule: layout_cases [where nodes = nodes and refs = refs and v = v and width = width
      and height = height and rnd = rnd and links = links and codes = codes])
  case skipped
  then show ?thesis
    by (simp add: layout_skip)
next
  case (thrown e)
  then show ?thesis
    by (simp add: layout_throw stop_previous_others)
next
  case (completed rs)
  then show ?thesis
    by (simp add: layout_done stop_previous_others)
qed

lemma cache_unchanged:
  "nodePositionsRef (step w (Layout refs width height nodes links codes) v) = nodePositionsRef v"
  "nodePositionsRef (step w (Cleanup i) v) = nodePositionsRef v"
  "nodePositionsRef (step w (DragStart i k) v) = nodePositionsRef v"
  "nodePositionsRef (step w (DragMove i k x y) v) = nodePositionsRef v"
  "nodePositionsRef (step w (OrphanTick i) v) = nodePositionsRef v"
  "nodePositionsRef (step w Teardown v) = nodePositionsRef v"
  by (simp_all add: cache_layout cleanup_def teardown_def Let_def split: option.splits)

lemma cache_tick_running:
  assumes "fetch_at (v_sims (step w (Tick i) v)) i = Some s" "s_running s"
  shows "nodePositionsRef (step w (Tick i) v) = nodePositionsRef v"
  using assms
  by (auto simp: Let_def fetch_at_def stop_def split: option.splits if_splits)

lemma cache_tick_end:
  assumes "fetch_at (v_sims v) i = Some s" "s_running s"
    "s_alpha (engine_tick (w_move w) s) < w_alphaMin w"
  shows "nodePositionsRef (step w (Tick i) v) = on_end (engine_tick (w_move w) s) (nodePositionsRef v)"
  using assms by (simp add: Let_def)

lemma cache_dragend:
  assumes "fetch_at (v_sims v) i = Some s" "k \<in> set (s_gestures s)" "fetch_at (s_nodes s) k = Some n"
  shows "nodePositionsRef (step w (DragEnd i k) v) = (nodePositionsRef v)(n_id n \<mapsto> entry_of n)"
  using assms by (simp add: Let_def dragended_def split: prod.splits)

lemma find_Some_member: "find P xs = Some x \<Longrightarrow> x \<in> set xs \<and> P x"
  by (induction xs) (auto split: if_splits)

lemma foldl_cache_lookup:
  "foldl (\<lambda>c n. c(n_id n \<mapsto> entry_of n)) c ns i
     = (case find (\<lambda>n. n_id n = i) (rev ns) of None \<Rightarrow> c i | Some n \<Rightarrow> Some (entry_of n))"
  by (induction ns rule: rev_induct) auto

lemma on_end_lookup:
  "on_end s c i = (case find (\<lambda>n. n_id n = i) (rev (s_nodes s)) of
                     None \<Rightarrow> c i
                   | Some n \<Rightarrow> Some (entry_of n))"
  by (simp add: on_end_def foldl_cache_lookup)

lemma on_end_dom: "dom (on_end s c) = dom c \<union> n_id ` set (s_nodes s)"
proof -
  have "(on_end s c i \<noteq> None) = (c i \<noteq> None \<or> i \<in> n_id ` set (s_nodes s))" for i
  proof (cases "find (\<lambda>n. n_id n = i) (rev (s_nodes s))")
    case None
    then have "i \<notin> n_id ` set (s_nodes s)"
      by (auto simp: find_None_iff)
    with None show ?thesis
      by (simp add: on_end_lookup)
  next
    case (Some n)
    then have "n \<in> set (s_nodes s) \<and> n_id n = i"
      using find_Some_member [of "\<lambda>n. n_id n = i" "rev (s_nodes s)" n] by simp
    with Some show ?thesis
      by (auto simp: on_end_lookup)
  qed
  then show ?thesis
    by (auto simp: dom_def)
qed

lemma cache_never_pruned: "dom (nodePositionsRef v) \<subseteq> dom (nodePositionsRef (step w ev v))"
proof (cases ev)
  case (Tick i)
  then show ?thesis
    by (auto simp: Let_def on_end_dom split: option.splits)
next
  case (DragEnd i k)
  then show ?thesis
    by (auto simp: Let_def dragended_def split: option.splits prod.splits)
qed (simp_all only: cache_unchanged order_refl)

text \<open>
  C5, as the code has it. The position cache is written in two places only: by the end
  callback, for every node of the simulation, when a timer step leaves alpha below the
  floor; and by the drag-end handler, for the dragged node. A run of the effect, a
  cleanup, a drag start, a drag move and a timer step after which the simulation still
  runs leave it as it was. No event removes an entry.
\<close>

theorem cache_write_points:
  "nodePositionsRef (step w (Layout refs width height nodes links codes) v) = nodePositionsRef v
   \<and> nodePositionsRef (step w (Cleanup i) v) = nodePositionsRef v
   \<and> nodePositionsRef (step w (DragStart i k) v) = nodePositionsRef v
   \<and> nodePositionsRef (step w (DragMove i k x y) v) = nodePositionsRef v
   \<and> (fetch_at (v_sims (step w (Tick i) v)) i = Some s' \<and> s_running s' \<longrightarrow>
        nodePositionsRef (step w (Tick i) v) = nodePositionsRef v)
   \<and> (fetch_at (v_sims v) i = Some s \<and> s_running s
        \<and> s_alpha (engine_tick (w_move w) s) < w_alphaMin w \<longrightarrow>
        nodePositionsRef (step w (Tick i) v) = on_end (engine_tick (w_move w) s) (nodePositionsRef v))
   \<and> dom (on_end s c) = dom c \<union> n_id ` set (s_nodes s)
   \<and> (fetch_at (v_sims v) i = Some s \<and> k \<in> set (s_gestures s) \<and> fetch_at (s_nodes s) k = Some n \<longrightarrow>
        nodePositionsRef (step w (DragEnd i k) v) = (nodePositionsRef v)(n_id n \<mapsto> entry_of n))
   \<and> dom (nodePositionsRef v) \<subseteq> dom (nodePositionsRef (step w ev v))"
  using cache_unchanged [of w] cache_tick_running [of w i v s'] cache_tick_end [of v i s w]
    cache_dragend [of v i s k n w] on_end_dom [of s c] cache_never_pruned [of v w ev]
  by blast

theorem cache_write_points_witness:
  "nodePositionsRef (step calm_world (Tick 0) (layout (\<lambda>k. 1 / 4) True 800 500 [nodeA] [] [] init))
     = Map.empty"
  using cache_write_points [where w = calm_world and i = 0
      and v = "layout (\<lambda>k. 1 / 4) True 800 500 [nodeA] [] [] init"
      and s' = "engine_tick (w_move calm_world)
                 (forceSimulation (fst (prepare Map.empty 800 500 (\<lambda>k. 1 / 4) 0 [nodeA] [] [])) []
                    800 500)"]
  by (simp add: model_defs example_defs)

theorem cache_update_counterexample:
  "map (\<lambda>n. (n_id n, n_x n, n_y n, n_fx n, n_fy n))
     (s_nodes (v_sims (run calm_world
        [Layout True 800 500 [nodeA, nodeB] [] [], Tick 0, DragStart 0 0, DragMove 0 0 (Fin 5) (Fin 7)]
        init) ! 0))
     = [(''A'', Fin 1, Fin 2, Some (Fin 5), Some (Fin 7)), (''B'', Fin 1, Fin 2, None, None)]
   \<and> nodePositionsRef (run calm_world
        [Layout True 800 500 [nodeA, nodeB] [] [], Tick 0, DragStart 0 0, DragMove 0 0 (Fin 5) (Fin 7)]
        init) ''A'' = None
   \<and> nodePositionsRef (run calm_world
        [Layout True 800 500 [nodeA, nodeB] [] [], Tick 0, DragStart 0 0, DragMove 0 0 (Fin 5) (Fin 7)]
        init) ''B'' = None
   \<and> nodePositionsRef (run calm_world
        [Layout True 800 500 [nodeA, nodeB] [] [], Tick 0, DragStart 0 0, DragMove 0 0 (Fin 5) (Fin 7),
         DragEnd 0 0, Layout True 800 500 [nodeB] [] []]
        init) ''A'' = Some \<lparr>c_x = Fin 1, c_y = Fin 2, c_fx = Some (Fin 5), c_fy = Some (Fin 7)\<rparr>"
  by code_simp

section \<open>One running simulation\<close>

lemma one_running_init: "one_running init"
  by (simp add: one_running_def init_def)

lemma length_modify_at: "length (modify_at i f xs) = length xs"
  by (simp add: modify_at_def)

lemma nth_modify_at:
  "j < length xs \<Longrightarrow> modify_at i f xs ! j = (if j = i then f (xs ! j) else xs ! j)"
  by (simp add: modify_at_def)

lemma stop_previous_none_running:
  assumes "one_running v" "i < length (v_sims (stop_previous v))"
  shows "\<not> s_running (v_sims (stop_previous v) ! i)"
proof (cases "simulationRef v")
  case None
  then have "stop_previous v = v"
    by (simp add: stop_previous_def)
  with assms None show ?thesis
    by (auto simp: one_running_def)
next
  case (Some j)
  then have sims: "v_sims (stop_previous v) = modify_at j stop (v_sims v)"
    by (simp add: stop_previous_def)
  have i: "i < length (v_sims v)"
    using assms(2) by (simp add: sims length_modify_at)
  show ?thesis
  proof (cases "i = j")
    case True
    with i show ?thesis
      by (simp add: sims nth_modify_at stop_def)
  next
    case False
    then have "\<not> s_running (v_sims v ! i)"
      using assms(1) i Some by (auto simp: one_running_def)
    with i False show ?thesis
      by (simp add: sims nth_modify_at)
  qed
qed

lemma stop_previous_fields:
  "length (v_sims (stop_previous v)) = length (v_sims v)"
  "simulationRef (stop_previous v) = simulationRef v"
  "v_svg (stop_previous v) = v_svg v"
  by (simp_all add: stop_previous_def length_modify_at split: option.splits)

lemma one_running_layout:
  assumes "one_running v"
  shows "one_running (layout rnd refs width height nodes links codes v)"
proof (cases rule: layout_cases [where nodes = nodes and refs = refs and v = v and width = width
      and height = height and rnd = rnd and links = links and codes = codes])
  case skipped
  then show ?thesis
    using assms by (simp add: layout_skip one_running_def)
next
  case (thrown e)
  have "\<forall>i < length (v_sims (stop_previous v)). \<not> s_running (v_sims (stop_previous v) ! i)"
    using stop_previous_none_running [OF assms] by simp
  then show ?thesis
    by (simp add: layout_throw [OF thrown] one_running_def)
next
  case (completed rs)
  let ?v' = "layout rnd refs width height nodes links codes v"
  let ?new = "forceSimulation (fst (prepare (nodePositionsRef v) width height rnd (v_draws v) nodes links codes))
                rs width height"
  have sims: "v_sims ?v' = v_sims (stop_previous v) @ [?new]"
    and ref: "simulationRef ?v' = Some (length (v_sims v))"
    and svg: "v_svg ?v' = Some (length (v_sims v))"
    and cl: "v_cleanup ?v' = Some (length (v_sims v))"
    by (simp_all add: layout_done [OF completed] stop_previous_fields)
  have "simulationRef ?v' = Some i" if "i < length (v_sims ?v')" "s_running (v_sims ?v' ! i)" for i
  proof (cases "i < length (v_sims v)")
    case True
    then have "\<not> s_running (v_sims (stop_previous v) ! i)"
      using stop_previous_none_running [OF assms, of i] by (simp add: stop_previous_fields)
    with that True show ?thesis
      by (simp add: sims nth_append stop_previous_fields)
  next
    case False
    with that show ?thesis
      by (simp add: sims ref stop_previous_fields)
  qed
  then show ?thesis
    by (simp add: one_running_def ref svg cl)
qed

lemma one_running_update:
  assumes "one_running v" "i < length (v_sims v)"
    and "s_running s' \<Longrightarrow> simulationRef v = Some i"
    and "v_sims v' = (v_sims v)[i := s']" "simulationRef v' = simulationRef v" "v_svg v' = v_svg v"
    and "v_cleanup v' = v_cleanup v"
  shows "one_running v'"
  unfolding one_running_def
proof (intro conjI allI impI)
  fix j
  assume "j < length (v_sims v')" "s_running (v_sims v' ! j)"
  then show "simulationRef v' = Some j"
    using assms by (cases "j = i") (auto simp: one_running_def)
next
  fix j
  assume "v_svg v' = Some j"
  then show "simulationRef v' = Some j"
    using assms by (simp add: one_running_def)
next
  fix j
  assume "v_cleanup v' = Some j"
  then show "simulationRef v' = Some j"
    using assms by (simp add: one_running_def)
qed

lemma one_running_tick:
  assumes "one_running v"
  shows "one_running (step w (Tick i) v)"
proof (cases "fetch_at (v_sims v) i")
  case None
  with assms show ?thesis by simp
next
  case (Some s)
  then have i: "i < length (v_sims v)" and s: "s = v_sims v ! i"
    by (auto simp: fetch_at_def split: if_splits)
  show ?thesis
  proof (cases "s_running s")
    case False
    with Some assms show ?thesis by simp
  next
    case True
    then have ref: "simulationRef v = Some i"
      using assms i s by (simp add: one_running_def)
    let ?s1 = "engine_tick (w_move w) s"
    show ?thesis
    proof (cases "s_alpha ?s1 < w_alphaMin w")
      case True
      show ?thesis
        by (rule one_running_update [OF assms i, of "stop ?s1"])
          (use Some \<open>s_running s\<close> True ref in \<open>simp_all add: Let_def\<close>)
    next
      case False
      show ?thesis
        by (rule one_running_update [OF assms i, of ?s1])
          (use Some \<open>s_running s\<close> False ref in \<open>simp_all add: Let_def\<close>)
    qed
  qed
qed

lemma one_running_dragstart:
  assumes "one_running v"
  shows "one_running (step w (DragStart i k) v)"
proof (cases "fetch_at (v_sims v) i")
  case None
  with assms show ?thesis by simp
next
  case (Some s)
  then have i: "i < length (v_sims v)"
    by (auto simp: fetch_at_def split: if_splits)
  show ?thesis
  proof (cases "v_svg v = Some i \<and> k < length (s_nodes s)")
    case False
    with Some assms show ?thesis by auto
  next
    case True
    then have ref: "simulationRef v = Some i"
      using assms by (simp add: one_running_def)
    show ?thesis
      by (rule one_running_update [OF assms i,
            of "(dragstarted (length (s_gestures s)) k s)\<lparr>s_gestures := k # s_gestures (dragstarted (length (s_gestures s)) k s)\<rparr>"])
        (use Some True ref in \<open>simp_all add: Let_def\<close>)
  qed
qed

lemma one_running_dragmove:
  assumes "one_running v"
  shows "one_running (step w (DragMove i k x y) v)"
proof (cases "fetch_at (v_sims v) i")
  case None
  with assms show ?thesis by simp
next
  case (Some s)
  then have i: "i < length (v_sims v)" and s: "s = v_sims v ! i"
    by (auto simp: fetch_at_def split: if_splits)
  show ?thesis
  proof (cases "k \<in> set (s_gestures s)")
    case False
    with Some assms show ?thesis by simp
  next
    case True
    show ?thesis
      by (rule one_running_update [OF assms i, of "dragged k x y s"])
        (use Some True assms i s in \<open>simp_all add: dragged_def one_running_def\<close>)
  qed
qed

lemma dragended_running: "s_running (fst (dragended a k s c)) = s_running s"
  by (simp add: dragended_def Let_def)

lemma one_running_dragend:
  assumes "one_running v"
  shows "one_running (step w (DragEnd i k) v)"
proof (cases "fetch_at (v_sims v) i")
  case None
  with assms show ?thesis by simp
next
  case (Some s)
  then have i: "i < length (v_sims v)" and s: "s = v_sims v ! i"
    by (auto simp: fetch_at_def split: if_splits)
  show ?thesis
  proof (cases "k \<in> set (s_gestures s)")
    case False
    with Some assms show ?thesis by simp
  next
    case True
    let ?s1 = "s\<lparr>s_gestures := remove1 k (s_gestures s)\<rparr>"
    show ?thesis
      by (rule one_running_update [OF assms i,
            of "fst (dragended (length (s_gestures ?s1)) k ?s1 (nodePositionsRef v))"])
        (use Some True assms i s in \<open>simp_all add: dragended_running one_running_def split: prod.splits\<close>)
  qed
qed

lemma one_running_cleanup:
  assumes "one_running v"
  shows "one_running (cleanup i v)"
proof (cases "i < length (v_sims v)")
  case False
  with assms show ?thesis
    by (simp add: cleanup_def modify_at_def one_running_def)
next
  case True
  show ?thesis
    by (rule one_running_update [OF assms True, of "stop (v_sims v ! i)"])
      (use True in \<open>simp_all add: cleanup_def modify_at_def stop_def\<close>)
qed

lemma one_running_teardown:
  assumes "one_running v"
  shows "one_running (teardown v)"
proof (cases "v_cleanup v")
  case None
  with assms show ?thesis
    by (simp add: teardown_def one_running_def)
next
  case (Some i)
  have "one_running (cleanup i v)"
    by (rule one_running_cleanup [OF assms])
  then have "one_running ((cleanup i v)\<lparr>v_cleanup := None, v_svg := None, v_frame := None\<rparr>)"
    by (simp add: one_running_def)
  with Some show ?thesis
    by (simp add: teardown_def)
qed

lemma one_running_orphan_tick:
  assumes "one_running v"
  shows "one_running (v\<lparr>v_orphans := os\<rparr>)"
  using assms by (simp add: one_running_def)

lemma one_running_step:
  assumes "one_running v"
  shows "one_running (step w e v)"
  using assms
  by (cases e)
    (simp_all only: step.simps one_running_layout one_running_cleanup one_running_tick [simplified]
      one_running_dragstart [simplified] one_running_dragmove [simplified] one_running_dragend [simplified]
      one_running_teardown one_running_orphan_tick)

lemma one_running_run: "one_running v \<Longrightarrow> one_running (run w es v)"
  by (induction es arbitrary: v) (simp_all add: one_running_step)

lemma one_running_count:
  assumes "one_running v"
  shows "length (filter s_running (v_sims v)) \<le> 1"
proof -
  let ?R = "{i. i < length (v_sims v) \<and> s_running (v_sims v ! i)}"
  let ?S = "case simulationRef v of None \<Rightarrow> {} | Some j \<Rightarrow> {j}"
  have sub: "?R \<subseteq> ?S"
    using assms by (auto simp: one_running_def split: option.splits)
  have fin: "finite ?S"
    by (simp split: option.splits)
  have "card ?R \<le> card ?S"
    by (rule card_mono [OF fin sub])
  also have "card ?S \<le> 1"
    by (simp split: option.splits)
  finally show ?thesis
    by (simp add: length_filter_conv_card)
qed

lemma teardown_stops:
  assumes "one_running v" "v_cleanup v = Some i"
  shows "filter s_running (v_sims (teardown v)) = []"
proof -
  have ref: "simulationRef v = Some i"
    using assms by (simp add: one_running_def)
  have sims: "v_sims (teardown v) = modify_at i stop (v_sims v)"
    using assms(2) by (simp add: teardown_def cleanup_def)
  have "\<not> s_running (modify_at i stop (v_sims v) ! j)" if "j < length (v_sims v)" for j
  proof (cases "j = i")
    case True
    with that show ?thesis
      by (simp add: nth_modify_at stop_def)
  next
    case False
    then have "\<not> s_running (v_sims v ! j)"
      using assms(1) that ref by (auto simp: one_running_def)
    with that False show ?thesis
      by (simp add: nth_modify_at)
  qed
  then have "\<forall>s \<in> set (modify_at i stop (v_sims v)). \<not> s_running s"
    by (auto simp: in_set_conv_nth length_modify_at)
  then show ?thesis
    by (simp add: sims filter_empty_conv)
qed

lemma orphans_layout:
  assumes "resolvable nodes links"
  shows "v_orphans (layout rnd refs width height nodes links codes v) = v_orphans v"
proof (cases rule: layout_cases [where nodes = nodes and refs = refs and v = v and width = width
      and height = height and rnd = rnd and links = links and codes = codes])
  case skipped
  then show ?thesis
    by (simp add: layout_skip)
next
  case (thrown e)
  have "\<exists>rs. initialize_links
          (fst (prepare (nodePositionsRef v) width height rnd (v_draws v) nodes links codes)) links = Inr rs"
    using initialize_links_resolvable [OF prepare_ids] assms by blast
  with thrown(3) show ?thesis by simp
next
  case (completed rs)
  then show ?thesis
    by (simp add: layout_done stop_previous_others)
qed

lemma no_orphans_step:
  assumes "settled e" "v_orphans v = []"
  shows "v_orphans (step w e v) = []"
proof (cases e)
  case (Layout refs width height nodes links codes)
  with assms show ?thesis
    by (simp add: orphans_layout)
next
  case (Cleanup i)
  with assms show ?thesis by (simp add: cleanup_def)
next
  case (Tick i)
  with assms show ?thesis by (simp add: Let_def split: option.splits)
next
  case (DragStart i k)
  with assms show ?thesis by (simp add: Let_def split: option.splits)
next
  case (DragMove i k x y)
  with assms show ?thesis by (simp split: option.splits)
next
  case (DragEnd i k)
  with assms show ?thesis by (simp add: Let_def split: option.splits prod.splits)
next
  case (OrphanTick i)
  with assms show ?thesis by (simp add: modify_at_def)
next
  case Teardown
  with assms show ?thesis by (simp add: teardown_def cleanup_def split: option.splits)
qed

lemma no_orphans_run:
  "list_all settled es \<Longrightarrow> v_orphans v = [] \<Longrightarrow> v_orphans (run w es v) = []"
  by (induction es arbitrary: v) (simp_all add: no_orphans_step)

lemma teardown_orphans: "v_orphans (teardown v) = v_orphans v"
  by (simp add: teardown_def cleanup_def split: option.splits)

text \<open>
  C6, as the code has it. A run of the effect that passes line 12 stops the simulation
  in \<open>simulationRef.current\<close> before line 68 starts the next one, so that none of the
  completed simulations runs then; whatever has happened, at most one of them runs, the
  one in \<open>simulationRef.current\<close>. A run on a snapshot whose link ids are ids of nodes
  appends the new simulation to the stopped ones, stores it in the ref and returns the
  cleanup function that stops it. As long as every run of the effect was on such a
  snapshot, no other simulation has been started: at most one simulation runs at all,
  and when the last run of the effect returned a cleanup function, none runs after the
  teardown.
\<close>

theorem one_simulation_runs:
  "length (filter s_running (v_sims (run w es init))) \<le> 1
   \<and> (\<forall>i < length (v_sims (run w es init)).
        s_running (v_sims (run w es init) ! i) \<longrightarrow> simulationRef (run w es init) = Some i)
   \<and> (\<forall>i < length (v_sims (stop_previous (run w es init))).
        \<not> s_running (v_sims (stop_previous (run w es init)) ! i))
   \<and> (nodes \<noteq> [] \<and> refs \<and> resolvable nodes links \<longrightarrow>
        (\<exists>rs. v_sims (layout rnd refs width height nodes links codes (run w es init))
           = v_sims (stop_previous (run w es init))
             @ [forceSimulation (fst (prepare (nodePositionsRef (run w es init)) width height rnd
                  (v_draws (run w es init)) nodes links codes)) rs width height])
        \<and> simulationRef (layout rnd refs width height nodes links codes (run w es init))
          = Some (length (v_sims (run w es init)))
        \<and> v_cleanup (layout rnd refs width height nodes links codes (run w es init))
          = Some (length (v_sims (run w es init))))
   \<and> (list_all settled es \<longrightarrow>
        running_count (run w es init) \<le> 1
        \<and> (\<forall>i. v_cleanup (run w es init) = Some i \<longrightarrow>
              running_count (step w Teardown (run w es init)) = 0))"
proof -
  let ?v = "run w es init"
  have inv: "one_running ?v"
    by (simp add: one_running_run one_running_init)
  have a: "length (filter s_running (v_sims ?v)) \<le> 1"
    by (rule one_running_count [OF inv])
  have b: "\<forall>i < length (v_sims ?v). s_running (v_sims ?v ! i) \<longrightarrow> simulationRef ?v = Some i"
    using inv by (simp add: one_running_def)
  have c: "\<forall>i < length (v_sims (stop_previous ?v)). \<not> s_running (v_sims (stop_previous ?v) ! i)"
    using stop_previous_none_running [OF inv] by simp
  have d: "(\<exists>rs. v_sims (layout rnd refs width height nodes links codes ?v)
           = v_sims (stop_previous ?v)
             @ [forceSimulation (fst (prepare (nodePositionsRef ?v) width height rnd
                  (v_draws ?v) nodes links codes)) rs width height])
        \<and> simulationRef (layout rnd refs width height nodes links codes ?v) = Some (length (v_sims ?v))
        \<and> v_cleanup (layout rnd refs width height nodes links codes ?v) = Some (length (v_sims ?v))"
    if "nodes \<noteq> []" "refs" "resolvable nodes links"
  proof -
    from that obtain rs where
      "layout rnd refs width height nodes links codes ?v
         = (stop_previous ?v)
             \<lparr>v_svg := None, v_frame := None,
              v_draws := snd (snd (prepare (nodePositionsRef ?v) width height rnd (v_draws ?v) nodes links codes)),
              v_sims := v_sims (stop_previous ?v)
                 @ [forceSimulation (fst (prepare (nodePositionsRef ?v) width height rnd (v_draws ?v) nodes links codes))
                      rs width height],
              simulationRef := Some (length (v_sims (stop_previous ?v))),
              v_svg := Some (length (v_sims (stop_previous ?v))),
              v_cleanup := Some (length (v_sims (stop_previous ?v))), v_error := None\<rparr>"
      by (rule layout_resolvable)
    then show ?thesis
      by (auto simp: stop_previous_fields)
  qed
  have e: "running_count ?v \<le> 1
        \<and> (\<forall>i. v_cleanup ?v = Some i \<longrightarrow> running_count (step w Teardown ?v) = 0)"
    if "list_all settled es"
  proof -
    have no: "v_orphans ?v = []"
      using no_orphans_run [OF that, of init w] by (simp add: init_def)
    have "running_count (teardown ?v) = 0" if "v_cleanup ?v = Some i" for i
      using teardown_stops [OF inv that] no by (simp add: running_count_def teardown_orphans)
    then show ?thesis
      using a no by (simp add: running_count_def)
  qed
  show ?thesis
    using a b c d e by blast
qed

theorem one_simulation_runs_witness:
  "running_count (step calm_world Teardown (run calm_world
      [Layout True 800 500 [nodeA] [] [], Tick 0, Cleanup 0,
       Layout True 800 500 [nodeA, nodeB] [link_between ''A'' ''B'' 1] []] init)) = 0
   \<and> simulationRef (run calm_world
      [Layout True 800 500 [nodeA] [] [], Tick 0, Cleanup 0,
       Layout True 800 500 [nodeA, nodeB] [link_between ''A'' ''B'' 1] []] init) = Some 1"
proof -
  let ?es = "[Layout True 800 500 [nodeA] [] [], Tick 0, Cleanup 0,
       Layout True 800 500 [nodeA, nodeB] [link_between ''A'' ''B'' 1] []]"
  let ?v = "run calm_world ?es init"
  have h: "list_all settled ?es \<and> v_cleanup ?v = Some 1
           \<and> 1 < length (v_sims ?v) \<and> s_running (v_sims ?v ! 1)"
    by code_simp
  show ?thesis
    using h one_simulation_runs [of calm_world ?es]
    by blast
qed

theorem stop_before_start_counterexample:
  "map s_running (v_sims (run calm_world
      [Layout True 800 500 [nodeA] [] [], Cleanup 0, Layout True 800 500 [] [] [],
       DragStart 0 0, Teardown] init)) = [True]
   \<and> running_count (run calm_world
      [Layout True 800 500 [nodeA] [] [], Cleanup 0, Layout True 800 500 [] [] [],
       DragStart 0 0, Teardown] init) = 1
   \<and> simulationRef (run calm_world
      [Layout True 800 500 [nodeA] [] [], Cleanup 0,
       Layout True 800 500 [nodeA] [link_between ''A'' ''Z'' 1] []] init) = Some 0
   \<and> map s_running (v_sims (run calm_world
      [Layout True 800 500 [nodeA] [] [], Cleanup 0,
       Layout True 800 500 [nodeA] [link_between ''A'' ''Z'' 1] []] init)) = [False]
   \<and> map o_running (v_orphans (run calm_world
      [Layout True 800 500 [nodeA] [] [], Cleanup 0,
       Layout True 800 500 [nodeA] [link_between ''A'' ''Z'' 1] [], Teardown] init)) = [True]
   \<and> running_count (run calm_world
      [Layout True 800 500 [nodeA] [] [], Cleanup 0,
       Layout True 800 500 [nodeA] [link_between ''A'' ''Z'' 1] [], Teardown] init) = 1"
  by code_simp

section \<open>The alpha target and the gestures in progress\<close>

lemma all_update:
  assumes "list_all P xs" "P y"
  shows "list_all P (xs[i := y])"
  using assms set_update_subset_insert [of xs i y] by (auto simp: list_all_iff)

lemma all_modify_at:
  assumes "list_all P xs" "\<And>s. P s \<Longrightarrow> P (f s)"
  shows "list_all P (modify_at i f xs)"
proof (cases "i < length xs")
  case True
  then have "P (f (xs ! i))"
    using assms by (simp add: list_all_iff)
  then show ?thesis
    using True all_update [OF assms(1), of "f (xs ! i)" i] by (simp add: modify_at_def)
next
  case False
  with assms(1) show ?thesis
    by (simp add: modify_at_def)
qed

lemma fetch_at_member: "fetch_at xs i = Some s \<Longrightarrow> s \<in> set xs"
  by (auto simp: fetch_at_def split: if_splits)















section \<open>The positions after a step\<close>

lemma engine_node_finite: "finite_pair (n_x (engine_node move centre nodes n), n_y (engine_node move centre nodes n))"
proof (cases "sound_motion move nodes n")
  case True
  then have "finite_pair (computed_position move nodes n)"
    by (simp add: sound_motion_def)
  with True show ?thesis
    by (simp add: engine_node_def finite_pair_def)
next
  case False
  then show ?thesis
    by (simp add: engine_node_def finite_pair_def)
qed

lemma engine_tick_finite: "finite_nodes (engine_tick move s)"
  by (simp add: finite_nodes_def engine_tick_def list_all_iff engine_node_finite)

lemma end_attrs_finite:
  assumes "list_all (\<lambda>n. finite_pair (n_x n, n_y n)) nodes"
  shows "finite_end (end_attrs nodes e)"
proof (cases e)
  case (AtNode i)
  show ?thesis
  proof (cases "i < length nodes")
    case True
    then have "finite_pair (n_x (nodes ! i), n_y (nodes ! i))"
      using assms by (simp add: list_all_length)
    with True AtNode show ?thesis
      by (simp add: fetch_at_def)
  next
    case False
    with AtNode show ?thesis
      by (simp add: fetch_at_def)
  qed
next
  case (Object s)
  then show ?thesis by simp
qed

lemma on_tick_finite:
  assumes "finite_nodes s"
  shows "finite_frame (on_tick s)"
proof -
  have nodes: "list_all (\<lambda>n. finite_pair (n_x n, n_y n)) (s_nodes s)"
    using assms by (simp add: finite_nodes_def)
  then have "list_all finite_pair (map (\<lambda>d. (n_x d, n_y d)) (s_nodes s))"
    by (simp add: list_all_iff)
  moreover have "list_all (\<lambda>l. finite_end (fst l) \<and> finite_end (snd l))
                   (map (line_attrs (s_nodes s)) (s_links s))"
    using end_attrs_finite [OF nodes] by (simp add: list_all_iff line_attrs_def)
  ultimately show ?thesis
    by (simp add: finite_frame_def on_tick_def)
qed

lemma frame_tick:
  "v_frame (step w (Tick i) v) = v_frame v
   \<or> (\<exists>s. v_frame (step w (Tick i) v) = Some (on_tick (engine_tick (w_move w) s)))"
proof (cases "fetch_at (v_sims v) i")
  case None
  then show ?thesis by simp
next
  case (Some s)
  show ?thesis
  proof (cases "s_running s \<and> v_svg v = Some i")
    case True
    with Some have "v_frame (step w (Tick i) v) = Some (on_tick (engine_tick (w_move w) s))"
      by (simp add: Let_def)
    then show ?thesis by blast
  next
    case False
    with Some have "v_frame (step w (Tick i) v) = v_frame v"
      by (auto simp: Let_def)
    then show ?thesis by blast
  qed
qed

lemma frame_layout:
  "v_frame (layout rnd refs width height nodes links codes v) = v_frame v
   \<or> v_frame (layout rnd refs width height nodes links codes v) = None"
proof (cases rule: layout_cases [where nodes = nodes and refs = refs and v = v and width = width
      and height = height and rnd = rnd and links = links and codes = codes])
  case skipped
  then show ?thesis by (simp add: layout_skip)
next
  case (thrown e)
  then show ?thesis by (simp add: layout_throw)
next
  case (completed rs)
  then show ?thesis by (simp add: layout_done)
qed

lemma frame_step:
  assumes "\<forall>fr. v_frame v = Some fr \<longrightarrow> finite_frame fr"
  shows "\<forall>fr. v_frame (step w e v) = Some fr \<longrightarrow> finite_frame fr"
proof (cases e)
  case (Layout refs width height nodes links codes)
  then show ?thesis
    using assms frame_layout [of "w_rnd w" refs width height nodes links codes v] by auto
next
  case (Cleanup i)
  then show ?thesis
    using assms by (simp add: cleanup_def)
next
  case (Tick i)
  then show ?thesis
    using assms frame_tick [of w i v] on_tick_finite [OF engine_tick_finite] by auto
next
  case (DragStart i k)
  then have "v_frame (step w e v) = v_frame v"
    by (simp add: Let_def split: option.splits)
  with assms show ?thesis by simp
next
  case (DragMove i k x y)
  then have "v_frame (step w e v) = v_frame v"
    by (simp split: option.splits)
  with assms show ?thesis by simp
next
  case (DragEnd i k)
  then have "v_frame (step w e v) = v_frame v"
    by (simp add: Let_def split: option.splits prod.splits)
  with assms show ?thesis by simp
next
  case (OrphanTick i)
  then show ?thesis
    using assms by simp
next
  case Teardown
  then show ?thesis
    by (simp add: teardown_def)
qed

lemma frame_run:
  "\<forall>fr. v_frame v = Some fr \<longrightarrow> finite_frame fr
   \<Longrightarrow> \<forall>fr. v_frame (run w es v) = Some fr \<longrightarrow> finite_frame fr"
proof (induction es arbitrary: v)
  case Nil
  then show ?case by simp
next
  case (Cons e es)
  show ?case
    using Cons.IH [OF frame_step [OF Cons.prems]] by simp
qed

lemma engine_tick_node:
  assumes "k < length (s_nodes s)"
  shows "s_nodes (engine_tick move s) ! k = engine_node move (s_center s) (s_nodes s) (s_nodes s ! k)"
    and "s_velocity (engine_tick move s) ! k = engine_velocity move (s_nodes s) (s_nodes s ! k)"
  using assms by (simp_all add: engine_tick_def)

lemma tick_error: "v_error (step w (Tick i) v) = v_error v"
  by (simp add: Let_def split: option.splits)

lemma tick_state:
  assumes "fetch_at (v_sims v) i = Some s" "s_running s"
  shows "\<exists>s'. fetch_at (v_sims (step w (Tick i) v)) i = Some s'
           \<and> s_nodes s' = s_nodes (engine_tick (w_move w) s)
           \<and> s_warnings s' = s_warnings (engine_tick (w_move w) s)"
  using assms
  by (auto simp: Let_def fetch_at_def stop_def split: if_splits)

text \<open>
  The ends of the links of every simulation are among its nodes, so that the tick
  callback draws every line end at a node with the position of that node.
\<close>

lemma links_in_range_shape:
  assumes "s_links s' = s_links s" "length (s_nodes s') = length (s_nodes s)"
  shows "links_in_range s' = links_in_range s"
  using assms by (simp add: links_in_range_def)

lemma range_new:
  assumes "initialize_links nodesData links = Inr rs"
  shows "links_in_range (forceSimulation nodesData rs width height)"
  using initialize_links_range [OF assms] by (simp add: links_in_range_def forceSimulation_def)

lemma range_stop: "links_in_range s \<Longrightarrow> links_in_range (stop s)"
  by (simp add: links_in_range_def stop_def)

lemma range_engine_tick: "links_in_range s \<Longrightarrow> links_in_range (engine_tick move s)"
  by (simp add: links_in_range_def engine_tick_def)

lemma range_dragged: "links_in_range s \<Longrightarrow> links_in_range (dragged k x y s)"
  by (simp add: links_in_range_def dragged_def length_modify_at)

lemma range_dragstarted:
  "links_in_range s \<Longrightarrow> links_in_range ((dragstarted a k s)\<lparr>s_gestures := g\<rparr>)"
  by (simp add: links_in_range_def dragstarted_def restart_def length_modify_at Let_def)

lemma range_dragended:
  "links_in_range s \<Longrightarrow> links_in_range (fst (dragended a k (s\<lparr>s_gestures := g\<rparr>) c))"
  by (simp add: links_in_range_def dragended_def Let_def)

lemma range_layout:
  assumes "list_all links_in_range (v_sims v)"
  shows "list_all links_in_range (v_sims (layout rnd refs width height nodes links codes v))"
proof -
  have stopped: "list_all links_in_range (v_sims (stop_previous v))"
    using all_modify_at [OF assms range_stop] assms
    by (simp add: stop_previous_def split: option.splits)
  show ?thesis
  proof (cases rule: layout_cases [where nodes = nodes and refs = refs and v = v and width = width
        and height = height and rnd = rnd and links = links and codes = codes])
    case skipped
    then show ?thesis
      using assms by (simp add: layout_skip)
  next
    case (thrown e)
    then show ?thesis
      using stopped by (simp add: layout_throw)
  next
    case (completed rs)
    then show ?thesis
      using stopped range_new [OF completed(3)] by (simp add: layout_done)
  qed
qed

lemma range_step:
  assumes "list_all links_in_range (v_sims v)"
  shows "list_all links_in_range (v_sims (step w e v))"
proof (cases e)
  case (Layout refs width height nodes links codes)
  then show ?thesis
    using range_layout [OF assms] by simp
next
  case (Cleanup i)
  then show ?thesis
    using all_modify_at [OF assms range_stop] by (simp add: cleanup_def)
next
  case (Tick i)
  show ?thesis
  proof (cases "fetch_at (v_sims v) i")
    case None
    with Tick assms show ?thesis by simp
  next
    case (Some s)
    then have "links_in_range (engine_tick (w_move w) s)"
      using assms fetch_at_member [OF Some] by (simp add: range_engine_tick list_all_iff)
    then have "list_all links_in_range ((v_sims v)[i := engine_tick (w_move w) s])"
      and "list_all links_in_range ((v_sims v)[i := stop (engine_tick (w_move w) s)])"
      using all_update [OF assms] range_stop by blast+
    with Tick Some assms show ?thesis
      by (simp add: Let_def)
  qed
next
  case (DragStart i k)
  show ?thesis
  proof (cases "fetch_at (v_sims v) i")
    case None
    with DragStart assms show ?thesis by simp
  next
    case (Some s)
    then have "links_in_range s"
      using assms fetch_at_member [OF Some] by (simp add: list_all_iff)
    then have "list_all links_in_range ((v_sims v)[i := (dragstarted (length (s_gestures s)) k s)
              \<lparr>s_gestures := k # s_gestures (dragstarted (length (s_gestures s)) k s)\<rparr>])"
      using all_update [OF assms] range_dragstarted by blast
    with DragStart Some assms show ?thesis
      by (simp add: Let_def)
  qed
next
  case (DragMove i k x y)
  show ?thesis
  proof (cases "fetch_at (v_sims v) i")
    case None
    with DragMove assms show ?thesis by simp
  next
    case (Some s)
    then have "links_in_range (dragged k x y s)"
      using assms fetch_at_member [OF Some] by (simp add: range_dragged list_all_iff)
    then have "list_all links_in_range ((v_sims v)[i := dragged k x y s])"
      using all_update [OF assms] by blast
    with DragMove Some assms show ?thesis
      by simp
  qed
next
  case (DragEnd i k)
  show ?thesis
  proof (cases "fetch_at (v_sims v) i")
    case None
    with DragEnd assms show ?thesis by simp
  next
    case (Some s)
    let ?s2 = "fst (dragended (length (remove1 k (s_gestures s))) k
                 (s\<lparr>s_gestures := remove1 k (s_gestures s)\<rparr>) (nodePositionsRef v))"
    have "links_in_range s"
      using assms fetch_at_member [OF Some] by (simp add: list_all_iff)
    then have "links_in_range ?s2"
      by (rule range_dragended)
    then have "list_all links_in_range ((v_sims v)[i := ?s2])"
      using all_update [OF assms] by blast
    with DragEnd Some assms show ?thesis
      by (auto simp: Let_def split: prod.splits)
  qed
next
  case (OrphanTick i)
  with assms show ?thesis by simp
next
  case Teardown
  then show ?thesis
    using all_modify_at [OF assms range_stop] assms
    by (simp add: teardown_def cleanup_def split: option.splits)
qed

lemma links_in_range_run: "list_all links_in_range (v_sims (run w es init))"
proof -
  have "list_all links_in_range (v_sims v) \<Longrightarrow> list_all links_in_range (v_sims (run w es v))" for v
    by (induction es arbitrary: v) (simp_all add: range_step)
  then show ?thesis
    by (simp add: init_def)
qed

lemma drawn_at_range:
  assumes "end_in_range (length nodes) e"
  shows "drawn_at nodes e (end_attrs nodes e)"
  using assms by (cases e) (simp_all add: fetch_at_def)

lemma lines_at_nodes_range: "links_in_range s \<Longrightarrow> lines_at_nodes s"
  by (simp add: links_in_range_def lines_at_nodes_def line_attrs_def list_all_iff drawn_at_range)

lemma lines_at_nodes_run: "list_all lines_at_nodes (v_sims (run w es init))"
  using links_in_range_run [of w es] lines_at_nodes_range by (simp add: list_all_iff)

text \<open>
  C7, on the step of the force library as the specification describes it. After a step
  of a simulation the position of every node is a pair of finite numbers, and so is
  every position that the tick callback has drawn, whatever has happened to the
  component and whatever the forces compute. A node whose computed position or velocity
  is not finite is at the centre of the canvas after the step, the centre given at line
  71, with velocity zero; every other node is where the forces put it. Each such node
  adds one to the warnings of the simulation, and a timer step changes nothing in the
  error of the component. The tick callback itself checks nothing: it draws the
  positions it finds, finite when they are.
\<close>

theorem positions_finite_after_tick:
  "finite_nodes (engine_tick move s)
   \<and> (fetch_at (v_sims v) i = Some s \<and> s_running s \<longrightarrow>
        (\<exists>s'. fetch_at (v_sims (step w (Tick i) v)) i = Some s'
           \<and> s_nodes s' = s_nodes (engine_tick (w_move w) s)
           \<and> s_warnings s' = s_warnings (engine_tick (w_move w) s)))
   \<and> (\<forall>fr. v_frame (run w es init) = Some fr \<longrightarrow> finite_frame fr)
   \<and> (finite_nodes s \<longrightarrow> finite_frame (on_tick s))
   \<and> (k < length (s_nodes s) \<and> \<not> sound_motion move (s_nodes s) (s_nodes s ! k) \<longrightarrow>
        n_x (s_nodes (engine_tick move s) ! k) = Fin (fst (s_center s))
        \<and> n_y (s_nodes (engine_tick move s) ! k) = Fin (snd (s_center s))
        \<and> s_velocity (engine_tick move s) ! k = (Fin 0, Fin 0))
   \<and> (k < length (s_nodes s) \<and> sound_motion move (s_nodes s) (s_nodes s ! k) \<longrightarrow>
        (n_x (s_nodes (engine_tick move s) ! k), n_y (s_nodes (engine_tick move s) ! k))
          = computed_position move (s_nodes s) (s_nodes s ! k)
        \<and> s_velocity (engine_tick move s) ! k = computed_velocity move (s_nodes s) (s_nodes s ! k))
   \<and> s_center (forceSimulation nodesData linksData width height) = (width / 2, height / 2)
   \<and> s_center (engine_tick move s) = s_center s
   \<and> s_warnings (engine_tick move s)
       = s_warnings s + length (filter (\<lambda>n. \<not> sound_motion move (s_nodes s) n) (s_nodes s))
   \<and> v_error (step w (Tick i) v) = v_error v"
proof -
  have a: "finite_nodes (engine_tick move s)"
    by (rule engine_tick_finite)
  have b: "fetch_at (v_sims v) i = Some s \<and> s_running s \<longrightarrow>
        (\<exists>s'. fetch_at (v_sims (step w (Tick i) v)) i = Some s'
           \<and> s_nodes s' = s_nodes (engine_tick (w_move w) s)
           \<and> s_warnings s' = s_warnings (engine_tick (w_move w) s))"
    using tick_state [of v i s w] by blast
  have "\<forall>fr. v_frame init = Some fr \<longrightarrow> finite_frame fr"
    by (simp add: init_def)
  then have c: "\<forall>fr. v_frame (run w es init) = Some fr \<longrightarrow> finite_frame fr"
    by (rule frame_run)
  have d: "finite_nodes s \<longrightarrow> finite_frame (on_tick s)"
    using on_tick_finite by blast
  have e: "k < length (s_nodes s) \<and> \<not> sound_motion move (s_nodes s) (s_nodes s ! k) \<longrightarrow>
        n_x (s_nodes (engine_tick move s) ! k) = Fin (fst (s_center s))
        \<and> n_y (s_nodes (engine_tick move s) ! k) = Fin (snd (s_center s))
        \<and> s_velocity (engine_tick move s) ! k = (Fin 0, Fin 0)"
    by (simp add: engine_tick_node engine_node_def engine_velocity_def)
  have f: "k < length (s_nodes s) \<and> sound_motion move (s_nodes s) (s_nodes s ! k) \<longrightarrow>
        (n_x (s_nodes (engine_tick move s) ! k), n_y (s_nodes (engine_tick move s) ! k))
          = computed_position move (s_nodes s) (s_nodes s ! k)
        \<and> s_velocity (engine_tick move s) ! k = computed_velocity move (s_nodes s) (s_nodes s ! k)"
    by (simp add: engine_tick_node engine_node_def engine_velocity_def)
  have g: "s_center (forceSimulation nodesData linksData width height) = (width / 2, height / 2)"
    by (simp add: forceSimulation_def)
  have h: "s_center (engine_tick move s) = s_center s"
    by (simp add: engine_tick_def)
  have j: "s_warnings (engine_tick move s)
       = s_warnings s + length (filter (\<lambda>n. \<not> sound_motion move (s_nodes s) n) (s_nodes s))"
    by (simp add: engine_tick_def)
  have l: "v_error (step w (Tick i) v) = v_error v"
    by (rule tick_error)
  show ?thesis
    using a b c d e f g h j l by (simp only: simp_thms)
qed

theorem positions_finite_after_tick_witness:
  "map (\<lambda>n. (n_x n, n_y n))
     (s_nodes (engine_tick (w_move wild_world)
        (forceSimulation (fst (prepare Map.empty 800 500 (\<lambda>k. 1 / 4) 0 [nodeA, nodeB] [] [])) [] 800 500)))
     = [(Fin 400, Fin 250), (Fin 400, Fin 250)]
   \<and> s_velocity (engine_tick (w_move wild_world)
        (forceSimulation (fst (prepare Map.empty 800 500 (\<lambda>k. 1 / 4) 0 [nodeA, nodeB] [] [])) [] 800 500))
     = [(Fin 0, Fin 0), (Fin 0, Fin 0)]
   \<and> s_warnings (engine_tick (w_move wild_world)
        (forceSimulation (fst (prepare Map.empty 800 500 (\<lambda>k. 1 / 4) 0 [nodeA, nodeB] [] [])) [] 800 500))
     = 2
   \<and> v_frame (run wild_world [Layout True 800 500 [nodeA, nodeB] [] [], Tick 0] init)
     = Some \<lparr>f_lines = [], f_circles = [(Fin 400, Fin 250), (Fin 400, Fin 250)],
             f_labels = [(Fin 400, Fin 250), (Fin 400, Fin 250)]\<rparr>
   \<and> finite_frame \<lparr>f_lines = [], f_circles = [(Fin 400, Fin 250), (Fin 400, Fin 250)],
             f_labels = [(Fin 400, Fin 250), (Fin 400, Fin 250)]\<rparr>
   \<and> v_error (run wild_world [Layout True 800 500 [nodeA, nodeB] [] [], Tick 0] init) = None"
proof -
  let ?s = "forceSimulation (fst (prepare Map.empty 800 500 (\<lambda>k. 1 / 4) 0 [nodeA, nodeB] [] [])) [] 800 500"
  let ?es = "[Layout True 800 500 [nodeA, nodeB] [] [], Tick 0]"
  let ?fr = "\<lparr>f_lines = [], f_circles = [(Fin 400, Fin 250), (Fin 400, Fin 250)],
             f_labels = [(Fin 400, Fin 250), (Fin 400, Fin 250)]\<rparr>"
  have h0: "0 < length (s_nodes ?s) \<and> \<not> sound_motion (w_move wild_world) (s_nodes ?s) (s_nodes ?s ! 0)"
    and h1: "1 < length (s_nodes ?s) \<and> \<not> sound_motion (w_move wild_world) (s_nodes ?s) (s_nodes ?s ! 1)"
    and len: "length (s_nodes (engine_tick (w_move wild_world) ?s)) = 2"
      "length (s_velocity (engine_tick (w_move wild_world) ?s)) = 2"
    and centre: "s_center ?s = (400, 250)"
    and warn: "s_warnings (engine_tick (w_move wild_world) ?s) = 2"
    and frame: "v_frame (run wild_world ?es init) = Some ?fr"
    and err: "v_error (run wild_world ?es init) = None"
    by code_simp+
  have n0: "n_x (s_nodes (engine_tick (w_move wild_world) ?s) ! 0) = Fin 400
            \<and> n_y (s_nodes (engine_tick (w_move wild_world) ?s) ! 0) = Fin 250
            \<and> s_velocity (engine_tick (w_move wild_world) ?s) ! 0 = (Fin 0, Fin 0)"
    using h0 centre
      positions_finite_after_tick [where move = "w_move wild_world" and s = ?s and k = 0]
    by simp
  have n1: "n_x (s_nodes (engine_tick (w_move wild_world) ?s) ! 1) = Fin 400
            \<and> n_y (s_nodes (engine_tick (w_move wild_world) ?s) ! 1) = Fin 250
            \<and> s_velocity (engine_tick (w_move wild_world) ?s) ! 1 = (Fin 0, Fin 0)"
    using h1 centre
      positions_finite_after_tick [where move = "w_move wild_world" and s = ?s and k = 1]
    by simp
  have nodes: "map (\<lambda>n. (n_x n, n_y n)) (s_nodes (engine_tick (w_move wild_world) ?s))
               = [(Fin 400, Fin 250), (Fin 400, Fin 250)]"
    using n0 n1 len(1) by (auto simp: list_eq_iff_nth_eq less_Suc_eq numeral_2_eq_2)
  have vel: "s_velocity (engine_tick (w_move wild_world) ?s) = [(Fin 0, Fin 0), (Fin 0, Fin 0)]"
    using n0 n1 len(2) by (auto simp: list_eq_iff_nth_eq less_Suc_eq numeral_2_eq_2)
  have fin: "finite_frame ?fr"
    using frame positions_finite_after_tick [where w = wild_world and es = ?es] by blast
  show ?thesis
    using nodes vel warn frame fin err by (simp only: simp_thms)
qed

section \<open>Seeding\<close>

lemma jitter_near_centre:
  assumes "0 \<le> r" "r < 1"
  shows "near_centre extent (jitter extent r)"
  using assms by (simp add: near_centre_def jitter_def)

lemma seed_coord_none:
  assumes "0 \<le> rnd k" "rnd k < 1"
  shows "near_centre extent (fst (seed_coord None extent rnd k))"
  using assms by (simp add: seed_coord_def jitter_near_centre)

lemma seed_coord_some: "truthy v \<Longrightarrow> fst (seed_coord (Some v) extent rnd k) = v"
  by (simp add: seed_coord_def)

lemma seed_pin_restored: "pin_restored cached (seed_pin cached)"
  by (simp add: pin_restored_def seed_pin_def split: option.splits)

lemma seed_node_seeded_from:
  assumes "\<forall>k. 0 \<le> rnd k \<and> rnd k < 1"
  shows "seeded_from cache width height d (fst (seed_node cache width height rnd k d))"
proof -
  obtain x k1 where x: "seed_coord (map_option c_x (cache (n_id d))) width rnd k = (x, k1)"
    by (cases "seed_coord (map_option c_x (cache (n_id d))) width rnd k")
  obtain y k2 where y: "seed_coord (map_option c_y (cache (n_id d))) height rnd k1 = (y, k2)"
    by (cases "seed_coord (map_option c_y (cache (n_id d))) height rnd k1")
  have n: "fst (seed_node cache width height rnd k d)
           = \<lparr>n_id = n_id d, n_name = n_name d, n_x = x, n_y = y,
              n_fx = seed_pin (Option.bind (cache (n_id d)) c_fx),
              n_fy = seed_pin (Option.bind (cache (n_id d)) c_fy)\<rparr>"
    by (simp add: seed_node_def x y Let_def)
  show ?thesis
  proof (cases "cache (n_id d)")
    case None
    have "near_centre width x"
      using seed_coord_none [of rnd k width] assms x None by simp
    moreover have "near_centre height y"
      using seed_coord_none [of rnd k1 height] assms y None by simp
    ultimately show ?thesis
      using None by (simp add: seeded_from_def n seed_pin_def)
  next
    case (Some e)
    have "truthy (c_x e) \<longrightarrow> x = c_x e"
      using seed_coord_some [of "c_x e" width rnd k] x Some by simp
    moreover have "truthy (c_y e) \<longrightarrow> y = c_y e"
      using seed_coord_some [of "c_y e" height rnd k1] y Some by simp
    ultimately show ?thesis
      using Some seed_pin_restored [of "c_fx e"] seed_pin_restored [of "c_fy e"]
      by (simp add: seeded_from_def n)
  qed
qed

lemma seed_nodes_seeded_from:
  assumes "\<forall>k. 0 \<le> rnd k \<and> rnd k < 1"
  shows "list_all2 (seeded_from cache width height) ds (fst (seed_nodes cache width height rnd k ds))"
proof (induction ds arbitrary: k)
  case Nil
  show ?case by simp
next
  case (Cons d ds)
  obtain n k1 where n: "seed_node cache width height rnd k d = (n, k1)"
    by (cases "seed_node cache width height rnd k d")
  obtain ns k2 where ns: "seed_nodes cache width height rnd k1 ds = (ns, k2)"
    by (cases "seed_nodes cache width height rnd k1 ds")
  have "seeded_from cache width height d n"
    using seed_node_seeded_from [OF assms, of cache width height d k] n by simp
  moreover have "list_all2 (seeded_from cache width height) ds ns"
    using Cons.IH [of k1] ns by simp
  ultimately show ?case
    by (simp add: n ns)
qed

lemma style_node_fields:
  "n_x (style_node codes links n) = n_x n"
  "n_y (style_node codes links n) = n_y n"
  "n_fx (style_node codes links n) = n_fx n"
  "n_fy (style_node codes links n) = n_fy n"
  by (simp_all add: style_node_def)

lemma style_node_seeded_from:
  "seeded_from cache width height d (style_node codes links n) = seeded_from cache width height d n"
  by (simp add: seeded_from_def style_node_fields style_node_id split: option.splits)

lemma prepare_seeded_from:
  assumes "\<forall>k. 0 \<le> rnd k \<and> rnd k < 1"
  shows "list_all2 (seeded_from cache width height) nodes
           (fst (prepare cache width height rnd k nodes links codes))"
  using seed_nodes_seeded_from [OF assms, of cache width height nodes k]
  by (simp add: prepare_nodes list_all2_map2 style_node_seeded_from)

lemma near_centre_off_zero:
  assumes "near_centre extent v" "100 < extent"
  shows "v \<noteq> Fin 0"
  using assms by (auto simp: near_centre_def)

text \<open>
  C2, as the code has it. With random draws in \<open>[0, 1)\<close>, every node of \<open>nodesData\<close> is
  seeded for the node of the snapshot at its place: a node whose id has a cache entry
  gets each cached coordinate and each cached pin that is a truthy number, exactly; a
  node whose id has none is free and within 50 of the centre of the canvas on each
  axis, which keeps it off the origin when the canvas is wider or higher than 100. The
  seed depends on what the cache holds, not on where the node was last drawn.
\<close>

theorem seeding_from_cache:
  assumes "\<forall>k. 0 \<le> rnd k \<and> rnd k < 1"
  shows "list_all2 (seeded_from cache width height) nodes
           (fst (prepare cache width height rnd k nodes links codes))
       \<and> (100 < width \<or> 100 < height \<longrightarrow>
            (\<forall>n \<in> set (fst (prepare cache width height rnd k nodes links codes)).
               cache (n_id n) = None \<longrightarrow> (n_x n, n_y n) \<noteq> (Fin 0, Fin 0)))"
proof -
  let ?ns = "fst (prepare cache width height rnd k nodes links codes)"
  have a: "list_all2 (seeded_from cache width height) nodes ?ns"
    by (rule prepare_seeded_from [OF assms])
  have "(n_x n, n_y n) \<noteq> (Fin 0, Fin 0)"
    if big: "100 < width \<or> 100 < height" and mem: "n \<in> set ?ns"
      and miss: "cache (n_id n) = None" for n
  proof -
    obtain d where "seeded_from cache width height d n"
      using a mem by (auto simp: list_all2_conv_all_nth in_set_conv_nth)
    then have "near_centre width (n_x n) \<and> near_centre height (n_y n)"
      using miss by (auto simp: seeded_from_def split: option.splits)
    then show ?thesis
      using big near_centre_off_zero by auto
  qed
  then show ?thesis
    using a by blast
qed

theorem seeding_from_cache_witness:
  "map (\<lambda>n. (n_x n, n_y n, n_fx n, n_fy n))
     (fst (prepare [''A'' \<mapsto> \<lparr>c_x = Fin 10, c_y = Fin 20, c_fx = Some (Fin 10), c_fy = None\<rparr>]
        800 500 (\<lambda>k. 1 / 4) 0 [nodeA, nodeB] [] []))
   = [(Fin 10, Fin 20, Some (Fin 10), None), (Fin 375, Fin 225, None, None)]"
proof -
  have h: "\<forall>k::nat. (0::real) \<le> 1 / 4 \<and> (1 / 4 :: real) < 1"
    by simp
  show ?thesis
    using seeding_from_cache [of "\<lambda>k. 1 / 4", OF h,
        of "[''A'' \<mapsto> \<lparr>c_x = Fin 10, c_y = Fin 20, c_fx = Some (Fin 10), c_fy = None\<rparr>]"
           800 500 "[nodeA, nodeB]" 0 "[]" "[]"]
    by (simp add: model_defs example_defs)
qed

theorem seeding_counterexample:
  "map (\<lambda>n. (n_x n, n_y n)) (fst (prepare Map.empty 100 100 (\<lambda>k. 0) 0 [nodeA] [] []))
     = [(Fin 0, Fin 0)]
   \<and> map (\<lambda>n. (n_id n, n_x n, n_y n))
       (s_nodes (v_sims (run shifting_world
          [Layout True 800 500 [nodeA] [] [], Layout True 800 500 [nodeA] [] []] init) ! 0))
     = [(''A'', Fin 375, Fin 225)]
   \<and> map (\<lambda>n. (n_id n, n_x n, n_y n))
       (s_nodes (v_sims (run shifting_world
          [Layout True 800 500 [nodeA] [] [], Layout True 800 500 [nodeA] [] []] init) ! 1))
     = [(''A'', Fin 425, Fin 275)]"
  by code_simp

section \<open>A pin at a zero coordinate\<close>

lemma pinned_node_stays:
  assumes "n_fx n = Some (Fin fx)" "n_fy n = Some (Fin fy)"
  shows "n_x (engine_node move centre nodes n) = Fin fx"
    and "n_y (engine_node move centre nodes n) = Fin fy"
    and "n_fx (engine_node move centre nodes n) = Some (Fin fx)"
    and "n_fy (engine_node move centre nodes n) = Some (Fin fy)"
  using assms
  by (simp_all add: engine_node_def sound_motion_def computed_position_def
      computed_velocity_def finite_pair_def)

lemma dragended_nodes: "s_nodes (fst (dragended active k s c)) = s_nodes s"
  by (simp add: dragended_def Let_def)

text \<open>
  C3 at a release point on the left edge of the canvas. The node is dragged to
  \<open>(0, 120)\<close> and released: it is fixed there and the cache holds the pin. The next run
  of the effect restores the pin on the y axis only, since \<open>0 || null\<close> is \<open>null\<close>: the
  node is seeded away from the release point, free on the x axis, and the next step of
  the simulation moves it.
\<close>

theorem pin_lost_at_zero:
  "map (\<lambda>n. (n_x n, n_y n, n_fx n, n_fy n))
     (s_nodes (v_sims (run calm_world
        [Layout True 800 500 [nodeA] [] [], DragStart 0 0, DragMove 0 0 (Fin 0) (Fin 120), Tick 0,
         DragEnd 0 0, Tick 0] init) ! 0))
     = [(Fin 0, Fin 120, Some (Fin 0), Some (Fin 120))]
   \<and> nodePositionsRef (run calm_world
        [Layout True 800 500 [nodeA] [] [], DragStart 0 0, DragMove 0 0 (Fin 0) (Fin 120), Tick 0,
         DragEnd 0 0, Tick 0] init) ''A''
     = Some \<lparr>c_x = Fin 0, c_y = Fin 120, c_fx = Some (Fin 0), c_fy = Some (Fin 120)\<rparr>
   \<and> map (\<lambda>n. (n_x n, n_y n, n_fx n, n_fy n))
     (s_nodes (v_sims (run calm_world
        [Layout True 800 500 [nodeA] [] [], DragStart 0 0, DragMove 0 0 (Fin 0) (Fin 120), Tick 0,
         DragEnd 0 0, Tick 0, Layout True 800 500 [nodeA] [] []] init) ! 1))
     = [(Fin 375, Fin 120, None, Some (Fin 120))]
   \<and> map (\<lambda>n. (n_x n, n_y n, n_fx n, n_fy n))
     (s_nodes (v_sims (run calm_world
        [Layout True 800 500 [nodeA] [] [], DragStart 0 0, DragMove 0 0 (Fin 0) (Fin 120), Tick 0,
         DragEnd 0 0, Tick 0, Layout True 800 500 [nodeA] [] [], Tick 1] init) ! 1))
     = [(Fin 1, Fin 120, None, Some (Fin 120))]"
  by code_simp

section \<open>The props are not mutated\<close>

lemma map_nodes_extends:
  assumes "map_nodes cache width height rnd k as h = Some (as', k', h')"
  shows "(\<exists>ys. h' = h @ ys) \<and> (\<forall>a \<in> set as'. length h \<le> a \<and> a < length h')"
  using assms
proof (induction as arbitrary: k h as')
  case Nil
  then show ?case by simp
next
  case (Cons a as)
  from Cons.prems obtain d where d: "fetch_at h a = Some (ONode d)"
    by (auto split: option.splits obj.splits)
  obtain n k1 where n: "seed_node cache width height rnd k d = (n, k1)"
    by (cases "seed_node cache width height rnd k d")
  let ?h1 = "h @ [OSeeded n]"
  from Cons.prems d n obtain as2 where
    rec: "map_nodes cache width height rnd k1 as ?h1 = Some (as2, k', h')"
    and as': "as' = length h # as2"
    by (auto simp: alloc_def split: option.splits)
  from Cons.IH [OF rec] obtain ys where
    ys: "h' = ?h1 @ ys" and fresh: "\<forall>a \<in> set as2. length ?h1 \<le> a \<and> a < length h'"
    by blast
  have "h' = h @ (OSeeded n # ys)"
    using ys by simp
  moreover have "\<forall>a \<in> set as'. length h \<le> a \<and> a < length h'"
    using fresh as' ys by auto
  ultimately show ?case by blast
qed

lemma map_links_extends:
  assumes "map_links as h = Some (as', h')"
  shows "(\<exists>ys. h' = h @ ys) \<and> (\<forall>a \<in> set as'. length h \<le> a \<and> a < length h')"
  using assms
proof (induction as arbitrary: h as')
  case Nil
  then show ?case by simp
next
  case (Cons a as)
  from Cons.prems obtain d where d: "fetch_at h a = Some (OLink d)"
    by (auto split: option.splits obj.splits)
  let ?h1 = "h @ [OLink \<lparr>l_source = l_source d, l_target = l_target d, l_value = l_value d\<rparr>]"
  from Cons.prems d obtain as2 where
    rec: "map_links as ?h1 = Some (as2, h')" and as': "as' = length h # as2"
    by (auto simp: alloc_def split: option.splits)
  from Cons.IH [OF rec] obtain ys where
    ys: "h' = ?h1 @ ys" and fresh: "\<forall>a \<in> set as2. length ?h1 \<le> a \<and> a < length h'"
    by blast
  have "h' = h @ (OLink \<lparr>l_source = l_source d, l_target = l_target d, l_value = l_value d\<rparr> # ys)"
    using ys by simp
  moreover have "\<forall>a \<in> set as'. length h \<le> a \<and> a < length h'"
    using fresh as' ys by auto
  ultimately show ?case by blast
qed

lemma length_put: "length (put a ob h) = length h"
  by (simp add: put_def)

lemma take_put_above: "n \<le> a \<Longrightarrow> take n (put a ob h) = take n h"
  by (simp add: put_def)

lemma fetch_put_other: "j \<noteq> a \<Longrightarrow> fetch_at (put a ob h) j = fetch_at h j"
  by (simp add: put_def fetch_at_def)

lemma style_pass_frame:
  assumes "style_pass codes ld as h = Some h'"
  shows "length h' = length h \<and> (\<forall>j. j \<notin> set as \<longrightarrow> fetch_at h' j = fetch_at h j)"
  using assms
proof (induction as arbitrary: h)
  case Nil
  then show ?case by simp
next
  case (Cons a as)
  from Cons.prems obtain ob where
    rec: "style_pass codes ld as (put a ob h) = Some h'"
    by (auto split: option.splits obj.splits)
  have "length h' = length (put a ob h)
        \<and> (\<forall>j. j \<notin> set as \<longrightarrow> fetch_at h' j = fetch_at (put a ob h) j)"
    by (rule Cons.IH [OF rec])
  then show ?case
    by (simp add: length_put fetch_put_other)
qed

lemma take_eq_fetch:
  assumes "length h' = length h" "\<forall>j < n. fetch_at h' j = fetch_at h j"
  shows "take n h' = take n h"
proof (rule nth_equalityI)
  show "length (take n h') = length (take n h)"
    using assms(1) by simp
next
  fix i
  assume "i < length (take n h')"
  then have i: "i < n" "i < length h'"
    by simp_all
  then have "fetch_at h' i = fetch_at h i"
    using assms(2) by simp
  then show "take n h' ! i = take n h ! i"
    using i assms(1) by (simp add: fetch_at_def)
qed

lemma prepare_store_parts:
  assumes "prepare_store cache width height rnd k p h = Some (nodesData, linksData, k', h')"
  obtains ns nd h1 ls ld h3 where
    "fetch_at h (p_nodes p) = Some (OArray ns)"
    "map_nodes cache width height rnd k ns h = Some (nd, k', h1)"
    "nodesData = length h1"
    "fetch_at (h1 @ [OArray nd]) (p_links p) = Some (OArray ls)"
    "map_links ls (h1 @ [OArray nd]) = Some (ld, h3)"
    "linksData = length h3"
    "style_pass (p_myStockCodes p) ld nd (h3 @ [OArray ld]) = Some h'"
  using assms
  unfolding prepare_store_def alloc_def
  by (auto split: option.splits obj.splits)

text \<open>
  C9. Lines 19-57 leave every object that existed before them as it was: the \<open>nodes\<close>,
  \<open>links\<close> and \<open>myStockCodes\<close> arrays and the node and link objects in them. The arrays
  \<open>nodesData\<close> and \<open>linksData\<close> and all their elements are new objects, and an assignment
  through any of these new addresses, as the force library, the tick callback and the
  drag handlers make them, leaves the old objects as they were too.
\<close>

theorem props_not_mutated:
  assumes "prepare_store cache width height rnd k p h = Some (nodesData, linksData, k', h')"
  shows "take (length h) h' = h
       \<and> length h \<le> nodesData \<and> length h \<le> linksData
       \<and> (\<exists>nd ld. fetch_at h' nodesData = Some (OArray nd)
              \<and> fetch_at h' linksData = Some (OArray ld)
              \<and> (\<forall>a \<in> set nd \<union> set ld. length h \<le> a \<and> a < length h'))
       \<and> (\<forall>a ob. length h \<le> a \<longrightarrow> take (length h) (put a ob h') = h)"
proof -
  from assms obtain ns nd h1 ls ld h3 where
    nodes: "map_nodes cache width height rnd k ns h = Some (nd, k', h1)"
    and nD: "nodesData = length h1"
    and links: "map_links ls (h1 @ [OArray nd]) = Some (ld, h3)"
    and lD: "linksData = length h3"
    and style: "style_pass (p_myStockCodes p) ld nd (h3 @ [OArray ld]) = Some h'"
    by (rule prepare_store_parts)
  let ?h2 = "h1 @ [OArray nd]" and ?h4 = "h3 @ [OArray ld]"
  from map_nodes_extends [OF nodes] obtain ys1 where
    h1: "h1 = h @ ys1" and nd: "\<forall>a \<in> set nd. length h \<le> a \<and> a < length h1"
    by blast
  from map_links_extends [OF links] obtain ys3 where
    h3: "h3 = ?h2 @ ys3" and ld: "\<forall>a \<in> set ld. length ?h2 \<le> a \<and> a < length h3"
    by blast
  have len: "length h' = length ?h4"
    and same: "\<forall>j. j \<notin> set nd \<longrightarrow> fetch_at h' j = fetch_at ?h4 j"
    using style_pass_frame [OF style] by simp_all
  have h4: "?h4 = h @ (ys1 @ OArray nd # ys3 @ [OArray ld])"
    by (simp add: h1 h3)
  have "take (length h) h' = take (length h) ?h4"
  proof (rule take_eq_fetch [OF len])
    show "\<forall>j < length h. fetch_at h' j = fetch_at ?h4 j"
    proof (intro allI impI)
      fix j
      assume "j < length h"
      then have "j \<notin> set nd"
        using nd by auto
      then show "fetch_at h' j = fetch_at ?h4 j"
        using same by blast
    qed
  qed
  then have old: "take (length h) h' = h"
    by (simp only: h4 append_eq_conv_conj [symmetric] take_all_iff take_append) simp
  have "nodesData \<notin> set nd"
    using nd nD by auto
  then have "fetch_at h' nodesData = fetch_at ?h4 nodesData"
    using same by simp
  then have a: "fetch_at h' nodesData = Some (OArray nd)"
    by (simp add: nD h3 fetch_at_def nth_append)
  have "linksData \<notin> set nd"
    using nd lD h3 by auto
  then have "fetch_at h' linksData = fetch_at ?h4 linksData"
    using same by simp
  then have b: "fetch_at h' linksData = Some (OArray ld)"
    by (simp add: lD fetch_at_def)
  have c: "\<forall>a \<in> set nd \<union> set ld. length h \<le> a \<and> a < length h'"
    using nd ld len h1 h3 by auto
  have d: "\<forall>a ob. length h \<le> a \<longrightarrow> take (length h) (put a ob h') = h"
    using old by (simp add: take_put_above)
  have e: "length h \<le> nodesData \<and> length h \<le> linksData"
    using nD lD h1 h3 by simp
  show ?thesis
    using old e a b c d by blast
qed


theorem props_not_mutated_witness:
  "\<exists>nodesData linksData k' h'.
      prepare_store Map.empty 800 500 (\<lambda>k. 1 / 4) 0 example_props example_store
        = Some (nodesData, linksData, k', h')
      \<and> take (length example_store) h' = example_store"
proof -
  have "prepare_store Map.empty 800 500 (\<lambda>k. 1 / 4) 0 example_props example_store \<noteq> None"
    by code_simp
  then obtain nodesData linksData k' h' where
    e: "prepare_store Map.empty 800 500 (\<lambda>k. 1 / 4) 0 example_props example_store
          = Some (nodesData, linksData, k', h')"
    by (cases "prepare_store Map.empty 800 500 (\<lambda>k. 1 / 4) 0 example_props example_store") auto
  show ?thesis
    using props_not_mutated [OF e] e by blast
qed

section \<open>The store and the values agree\<close>

lemma fetch_append_old: "a < length h \<Longrightarrow> fetch_at (h @ ys) a = fetch_at h a"
  by (simp add: fetch_at_def nth_append)

lemma fetch_all_valid:
  assumes "map (fetch_at h) as = map (\<lambda>d. Some (f d)) ds"
  shows "\<forall>a \<in> set as. a < length h"
  using assms
  by (induction as arbitrary: ds) (auto simp: fetch_at_def split: if_splits)

lemma map_fetch_append:
  assumes "map (fetch_at h) as = map (\<lambda>d. Some (f d)) ds"
  shows "map (fetch_at (h @ ys)) as = map (\<lambda>d. Some (f d)) ds"
proof -
  have "map (fetch_at (h @ ys)) as = map (fetch_at h) as"
    using fetch_all_valid [OF assms] by (simp add: fetch_append_old)
  then show ?thesis
    using assms by simp
qed

lemma map_nodes_value:
  assumes "map (fetch_at h) as = map (\<lambda>d. Some (ONode d)) ds"
  shows "\<exists>as' h'. map_nodes cache width height rnd k as h
                    = Some (as', snd (seed_nodes cache width height rnd k ds), h')
           \<and> map (fetch_at h') as'
               = map (\<lambda>n. Some (OSeeded n)) (fst (seed_nodes cache width height rnd k ds))
           \<and> distinct as'"
  using assms
proof (induction ds arbitrary: as h k)
  case Nil
  then show ?case by simp
next
  case (Cons d ds)
  from Cons.prems obtain a as0 where as: "as = a # as0"
    and a: "fetch_at h a = Some (ONode d)"
    and as0: "map (fetch_at h) as0 = map (\<lambda>d. Some (ONode d)) ds"
    by (cases as) auto
  obtain n k1 where n: "seed_node cache width height rnd k d = (n, k1)"
    by (cases "seed_node cache width height rnd k d")
  let ?h1 = "h @ [OSeeded n]"
  have "map (fetch_at ?h1) as0 = map (\<lambda>d. Some (ONode d)) ds"
    by (rule map_fetch_append [OF as0])
  from Cons.IH [OF this, of k1] obtain as2 h2 where
    rec: "map_nodes cache width height rnd k1 as0 ?h1
            = Some (as2, snd (seed_nodes cache width height rnd k1 ds), h2)"
    and vals: "map (fetch_at h2) as2
            = map (\<lambda>n. Some (OSeeded n)) (fst (seed_nodes cache width height rnd k1 ds))"
    and dist: "distinct as2"
    by blast
  from map_nodes_extends [OF rec] obtain ys where
    h2: "h2 = ?h1 @ ys" and fresh: "\<forall>a \<in> set as2. length ?h1 \<le> a \<and> a < length h2"
    by blast
  have res: "map_nodes cache width height rnd k as h
               = Some (length h # as2, snd (seed_nodes cache width height rnd k1 ds), h2)"
    by (simp add: as a n alloc_def rec)
  have new: "fetch_at h2 (length h) = Some (OSeeded n)"
    by (simp add: h2 fetch_at_def nth_append)
  have "length h \<notin> set as2"
    using fresh by auto
  then have d2: "distinct (length h # as2)"
    using dist by simp
  have seeds: "seed_nodes cache width height rnd k (d # ds)
                 = (n # fst (seed_nodes cache width height rnd k1 ds),
                    snd (seed_nodes cache width height rnd k1 ds))"
    by (simp add: n split: prod.splits)
  show ?case
    using res new vals d2 by (simp add: seeds del: seed_nodes.simps)
qed

lemma map_links_value:
  assumes "map (fetch_at h) as = map (\<lambda>d. Some (OLink d)) links"
  shows "\<exists>as' h'. map_links as h = Some (as', h')
           \<and> map (fetch_at h') as' = map (\<lambda>d. Some (OLink d)) links"
  using assms
proof (induction links arbitrary: as h)
  case Nil
  then show ?case by simp
next
  case (Cons d links)
  from Cons.prems obtain a as0 where as: "as = a # as0"
    and a: "fetch_at h a = Some (OLink d)"
    and as0: "map (fetch_at h) as0 = map (\<lambda>d. Some (OLink d)) links"
    by (cases as) auto
  let ?h1 = "h @ [OLink \<lparr>l_source = l_source d, l_target = l_target d, l_value = l_value d\<rparr>]"
  have "map (fetch_at ?h1) as0 = map (\<lambda>d. Some (OLink d)) links"
    by (rule map_fetch_append [OF as0])
  from Cons.IH [OF this] obtain as2 h2 where
    rec: "map_links as0 ?h1 = Some (as2, h2)"
    and vals: "map (fetch_at h2) as2 = map (\<lambda>d. Some (OLink d)) links"
    by blast
  from map_links_extends [OF rec] obtain ys where h2: "h2 = ?h1 @ ys"
    by blast
  have res: "map_links as h = Some (length h # as2, h2)"
    by (simp add: as a alloc_def rec)
  have new: "fetch_at h2 (length h) = Some (OLink d)"
    by (simp add: h2 fetch_at_def nth_append clone_link_eq)
  show ?case
    using res new vals by simp
qed

lemma read_links_value:
  assumes "map (fetch_at h) as = map (\<lambda>d. Some (OLink d)) links"
  shows "read_links h as = Some links"
  using assms
proof (induction links arbitrary: as)
  case Nil
  then show ?case by simp
next
  case (Cons d links)
  from Cons.prems obtain a as0 where as: "as = a # as0"
    and a: "fetch_at h a = Some (OLink d)"
    and as0: "map (fetch_at h) as0 = map (\<lambda>d. Some (OLink d)) links"
    by (cases as) auto
  show ?case
    using Cons.IH [OF as0] by (simp add: as a)
qed

lemma map_fetch_put:
  assumes "a \<notin> set as"
  shows "map (fetch_at (put a ob h)) as = map (fetch_at h) as"
  using assms by (induction as) (auto simp: fetch_put_other)

lemma style_pass_value:
  assumes "map (fetch_at h) as = map (\<lambda>n. Some (OSeeded n)) seeded" "distinct as"
    and "fetch_at h c = Some (OStrings codes)" "c \<notin> set as"
    and "map (fetch_at h) ld = map (\<lambda>d. Some (OLink d)) links" "set ld \<inter> set as = {}"
  shows "\<exists>h'. style_pass c ld as h = Some h'
           \<and> map (fetch_at h') as = map (\<lambda>n. Some (OSim (style_node codes links n))) seeded"
  using assms
proof (induction seeded arbitrary: as h)
  case Nil
  then show ?case by simp
next
  case (Cons n seeded)
  from Cons.prems(1) obtain a as0 where as: "as = a # as0"
    and a: "fetch_at h a = Some (OSeeded n)"
    and as0: "map (fetch_at h) as0 = map (\<lambda>n. Some (OSeeded n)) seeded"
    by (cases as) auto
  let ?ob = "OSim (style_node codes links n)"
  let ?h1 = "put a ?ob h"
  have notin: "a \<notin> set as0" "distinct as0" "c \<noteq> a" "c \<notin> set as0" "a \<notin> set ld"
    "set ld \<inter> set as0 = {}"
    using Cons.prems(2,4,6) as by auto
  have 1: "map (fetch_at ?h1) as0 = map (\<lambda>n. Some (OSeeded n)) seeded"
    using as0 notin(1) by (simp add: map_fetch_put)
  have 2: "fetch_at ?h1 c = Some (OStrings codes)"
    using Cons.prems(3) notin(3) by (simp add: fetch_put_other)
  have 3: "map (fetch_at ?h1) ld = map (\<lambda>d. Some (OLink d)) links"
    using Cons.prems(5) notin(5) by (simp add: map_fetch_put)
  from Cons.IH [OF 1 notin(2) 2 notin(4) 3 notin(6)] obtain h' where
    rec: "style_pass c ld as0 ?h1 = Some h'"
    and vals: "map (fetch_at h') as0 = map (\<lambda>n. Some (OSim (style_node codes links n))) seeded"
    by blast
  have res: "style_pass c ld as h = Some h'"
    using rec by (simp add: as a Cons.prems(3) read_links_value [OF Cons.prems(5)])
  have "a < length h"
    using a by (simp add: fetch_at_def split: if_splits)
  then have "fetch_at ?h1 a = Some ?ob"
    by (simp add: put_def fetch_at_def)
  then have new: "fetch_at h' a = Some ?ob"
    using style_pass_frame [OF rec] notin(1) by simp
  show ?case
    using res new vals by (simp add: as)
qed


lemma prepare_draws:
  "snd (snd (prepare cache width height rnd k nodes links codes))
     = snd (seed_nodes cache width height rnd k nodes)"
  by (simp add: prepare_def Let_def split: prod.splits)

text \<open>
  On props that hold a snapshot, the store version of lines 19-57 succeeds, and the new
  objects it leaves at the addresses in \<open>nodesData\<close> and \<open>linksData\<close> are the values that
  \<open>prepare\<close> computes from the snapshot.
\<close>

lemma prepare_store_refines:
  assumes pn: "fetch_at h (p_nodes p) = Some (OArray ns)"
    and ns: "map (fetch_at h) ns = map (\<lambda>d. Some (ONode d)) nodes"
    and pl: "fetch_at h (p_links p) = Some (OArray ls)"
    and ls: "map (fetch_at h) ls = map (\<lambda>d. Some (OLink d)) links"
    and pc: "fetch_at h (p_myStockCodes p) = Some (OStrings codes)"
  shows "\<exists>nodesData linksData h' nd ld.
           prepare_store cache width height rnd k p h
             = Some (nodesData, linksData,
                     snd (snd (prepare cache width height rnd k nodes links codes)), h')
           \<and> fetch_at h' nodesData = Some (OArray nd)
           \<and> map (fetch_at h') nd
               = map (\<lambda>n. Some (OSim n)) (fst (prepare cache width height rnd k nodes links codes))
           \<and> fetch_at h' linksData = Some (OArray ld)
           \<and> map (fetch_at h') ld
               = map (\<lambda>d. Some (OLink d)) (fst (snd (prepare cache width height rnd k nodes links codes)))"
proof -
  let ?seeded = "fst (seed_nodes cache width height rnd k nodes)"
  let ?k' = "snd (seed_nodes cache width height rnd k nodes)"
  from map_nodes_value [OF ns, of cache width height rnd k] obtain nd h1 where
    nodes: "map_nodes cache width height rnd k ns h = Some (nd, ?k', h1)"
    and v1: "map (fetch_at h1) nd = map (\<lambda>n. Some (OSeeded n)) ?seeded"
    and dist: "distinct nd"
    by blast
  from map_nodes_extends [OF nodes] obtain ys1 where
    h1: "h1 = h @ ys1" and fnd: "\<forall>a \<in> set nd. length h \<le> a \<and> a < length h1"
    by blast
  let ?h2 = "h1 @ [OArray nd]"
  have h2: "?h2 = h @ (ys1 @ [OArray nd])"
    by (simp add: h1)
  have old: "p_nodes p < length h" "p_links p < length h" "p_myStockCodes p < length h"
    using pn pl pc by (simp_all add: fetch_at_def split: if_splits)
  have pl2: "fetch_at ?h2 (p_links p) = Some (OArray ls)"
    using pl old(2) by (simp only: h2 fetch_append_old)
  have "map (fetch_at ?h2) ls = map (\<lambda>d. Some (OLink d)) links"
    using map_fetch_append [OF ls, of "ys1 @ [OArray nd]"] by (simp only: h2)
  from map_links_value [OF this] obtain ld h3 where
    links: "map_links ls ?h2 = Some (ld, h3)"
    and v3: "map (fetch_at h3) ld = map (\<lambda>d. Some (OLink d)) links"
    by blast
  from map_links_extends [OF links] obtain ys3 where
    h3: "h3 = ?h2 @ ys3" and fld: "\<forall>a \<in> set ld. length ?h2 \<le> a \<and> a < length h3"
    by blast
  let ?h4 = "h3 @ [OArray ld]"
  have h4: "?h4 = h @ (ys1 @ OArray nd # ys3 @ [OArray ld])"
    and h4': "?h4 = h1 @ (OArray nd # ys3 @ [OArray ld])"
    by (simp_all add: h1 h3)
  have s1: "map (fetch_at ?h4) nd = map (\<lambda>n. Some (OSeeded n)) ?seeded"
    using map_fetch_append [OF v1, of "OArray nd # ys3 @ [OArray ld]"] by (simp only: h4')
  have s3: "fetch_at ?h4 (p_myStockCodes p) = Some (OStrings codes)"
    using pc old(3) by (simp only: h4 fetch_append_old)
  have s4: "p_myStockCodes p \<notin> set nd"
    using fnd old(3) by auto
  have s5: "map (fetch_at ?h4) ld = map (\<lambda>d. Some (OLink d)) links"
    by (rule map_fetch_append [OF v3])
  have s6: "set ld \<inter> set nd = {}"
    using fnd fld by fastforce
  from style_pass_value [OF s1 dist s3 s4 s5 s6] obtain h' where
    style: "style_pass (p_myStockCodes p) ld nd ?h4 = Some h'"
    and v5: "map (fetch_at h') nd = map (\<lambda>n. Some (OSim (style_node codes links n))) ?seeded"
    by blast
  have same: "\<forall>j. j \<notin> set nd \<longrightarrow> fetch_at h' j = fetch_at ?h4 j"
    using style_pass_frame [OF style] by simp
  have res: "prepare_store cache width height rnd k p h = Some (length h1, length h3, ?k', h')"
    by (simp add: prepare_store_def pn nodes alloc_def pl2 links style)
  have "length h1 \<notin> set nd"
    using fnd by auto
  then have "fetch_at h' (length h1) = fetch_at ?h4 (length h1)"
    using same by simp
  then have a: "fetch_at h' (length h1) = Some (OArray nd)"
    by (simp add: h3 fetch_at_def nth_append)
  have "length h3 \<notin> set nd"
    using fnd h3 by auto
  then have "fetch_at h' (length h3) = fetch_at ?h4 (length h3)"
    using same by simp
  then have b: "fetch_at h' (length h3) = Some (OArray ld)"
    by (simp add: fetch_at_def)
  have "map (fetch_at h') ld = map (fetch_at ?h4) ld"
    using same s6 by (intro map_cong refl) auto
  then have c: "map (fetch_at h') ld = map (\<lambda>d. Some (OLink d)) links"
    using s5 by simp
  have d: "map (fetch_at h') nd
             = map (\<lambda>n. Some (OSim n)) (fst (prepare cache width height rnd k nodes links codes))"
    using v5 by (simp add: prepare_nodes)
  show ?thesis
    using res a b c d by (simp add: prepare_draws prepare_links)
qed


end
